theory Spec2Isabelle
  imports Main
begin

section \<open>The fingerprint identification worker\<close>

text \<open>
  The worker (the second source file of the repository) receives a \<open>do\<close> message with a
  work item and an inclusive index range, cuts the range into chunks of at most
  \<open>identifyCount\<close> templates, and drives the chunks one after the other through the
  matching engine \<open>dpfp.identify\<close>. A \<open>stop\<close> message cancels the search. A \<open>done\<close>
  message reports the result.

  A read \<open>work.items[k]\<close> outside the array gives \<open>undefined\<close> in JavaScript; it is \<open>None\<close>
  here.
\<close>

subsection \<open>JavaScript numbers\<close>

text \<open>
  \<open>start\<close>, \<open>end\<close>, \<open>current\<close> and \<open>identifyCount\<close> are JavaScript numbers, that is IEEE
  doubles, and the worker uses them as indices. The integer values of doubles are
  integers here: a double has 53 significant bits, so up to \<open>2^53\<close> in absolute value every
  integer is a double, from there to \<open>2^54\<close> every second one, and so on. A sum is the
  exact sum rounded to the nearest double, a tie going to the double whose 53-bit
  significand is even.

  \<open>expo a j\<close> is the least \<open>k \<ge> j\<close> with \<open>a < 2^(53 + k)\<close>; for \<open>j = 0\<close> the doubles
  next to \<open>a\<close> are the multiples of \<open>2^k\<close>. \<open>round_nat\<close> rounds a natural number to the
  nearest of them.
\<close>

function expo :: "nat \<Rightarrow> nat \<Rightarrow> nat" where
  "expo a j = (if a < 2 ^ (53 + j) then j else expo a (Suc j))"
  by pat_completeness auto
termination
proof (relation "measure (\<lambda>(a, j). a + 1 - 2 ^ (53 + j))")
  show "wf (measure (\<lambda>(a, j). a + 1 - 2 ^ (53 + j)))" by simp
next
  fix a j :: nat
  assume "\<not> a < 2 ^ (53 + j)"
  then have "(2::nat) ^ (53 + j) \<le> a" by simp
  moreover have "(2::nat) ^ (53 + Suc j) = 2 * 2 ^ (53 + j)"
    by (simp only: add_Suc_right power_Suc)
  moreover have "(0::nat) < 2 ^ (53 + j)" by simp
  ultimately have "a + 1 - 2 ^ (53 + Suc j) < a + 1 - 2 ^ (53 + j)" by linarith
  then show "((a, Suc j), (a, j)) \<in> measure (\<lambda>(a, j). a + 1 - 2 ^ (53 + j))" by simp
qed

declare expo.simps [simp del]

definition round_nat :: "nat \<Rightarrow> nat" where
  "round_nat a =
     (let u = 2 ^ expo a 0; q = a div u; r = a mod u
      in if 2 * r < u \<or> (2 * r = u \<and> even q) then q * u else (q + 1) * u)"

text \<open>
  The largest finite double is \<open>2^1024 - 2^971\<close>. A sum that rounds to \<open>2^1024\<close> or lies
  beyond it is \<open>Infinity\<close>, or \<open>-Infinity\<close>; the integers \<open>2^1024\<close> and \<open>-2^1024\<close> stand for
  these two values. \<open>dround\<close> rounds an integer of either sign.
\<close>

definition infinity :: int where
  "infinity = 2 ^ 1024"

definition dround :: "int \<Rightarrow> int" where
  "dround x =
     (let m = min (int (round_nat (nat \<bar>x\<bar>))) infinity
      in if x < 0 then - m else m)"

text \<open>
  \<open>a + b\<close> for a number \<open>a\<close> and a finite number \<open>b\<close>: an infinite \<open>a\<close> stays what it is.
  \<open>is_num x\<close> says that the integer \<open>x\<close> is the value of a JavaScript number.
\<close>

definition js_add :: "int \<Rightarrow> int \<Rightarrow> int" where
  "js_add a b = (if infinity \<le> \<bar>a\<bar> then a else dround (a + b))"

definition is_num :: "int \<Rightarrow> bool" where
  "is_num x \<longleftrightarrow> dround x = x"

subsection \<open>Data\<close>

record 't work_item =
  work_id :: nat
  items :: "'t list"
  feature :: 't

text \<open>The object literal \<open>{start: current, fmds: []}\<close> built for every chunk.\<close>

record 't chunk =
  start :: int
  fmds :: "'t option list"

text \<open>The outbound message \<open>{cmd: 'done', work: work, matched: matched, worker: Worker.id}\<close>.\<close>

record 't done_msg =
  cmd :: string
  msg_work :: "'t work_item"
  msg_matched :: "int option"
  worker :: nat

text \<open>The calls of \<open>log\<close> and \<open>error\<close>, in the order of the source.\<close>

datatype log_entry =
    LogVerifying nat int int
  | LogFound int
  | LogErr
  | LogDone int
  | LogStopping

text \<open>
  What the worker takes from outside: \<open>identifyCount\<close> is the value of
  \<open>dpfp.getIdentificationLen()\<close>, \<open>worker_id\<close> is \<open>Worker.id\<close>, and \<open>engine_throws\<close>
  tells for a chunk whether the call \<open>dpfp.identify(work.feature, d.fmds)\<close> throws
  before it returns a promise (the \<open>catch\<close> block of the handler). Within one search every
  chunk has its own start index, so a predicate on chunks leaves the engine free to throw
  on any of the calls.
\<close>

record 't env =
  identifyCount :: int
  worker_id :: nat
  engine_throws :: "'t chunk \<Rightarrow> bool"

definition js_index :: "'a list \<Rightarrow> int \<Rightarrow> 'a option" where
  "js_index xs k = (if 0 \<le> k \<and> k < int (length xs) then Some (xs ! nat k) else None)"

subsection \<open>Chunk construction\<close>

text \<open>
  The inner loop of \<open>verify\<close>:
  \<^verbatim>\<open>for (let i = 0; i < identifyCount; i++) {
    if (current + i > end) break;
    data.fmds.push(work.items[current + i]);
}\<close>
  The sum \<open>current + i\<close> is rounded. The counter \<open>i\<close> itself is exact: it counts the
  entries pushed so far, and an array holds fewer than \<open>2^32\<close> of them.
\<close>

function fmds_loop :: "int \<Rightarrow> 't list \<Rightarrow> int \<Rightarrow> int \<Rightarrow> int \<Rightarrow> 't option list \<Rightarrow> 't option list" where
  "fmds_loop n its current e i acc =
     (if i < n then
        (if js_add current i > e then acc
         else fmds_loop n its current e (i + 1) (acc @ [js_index its (js_add current i)]))
      else acc)"
  by pat_completeness auto
termination
  by (relation "measure (\<lambda>(n, its, current, e, i, acc). nat (n - i))") auto

declare fmds_loop.simps [simp del]

text \<open>
  The outer loop of \<open>verify\<close>:
  \<^verbatim>\<open>while (current <= end && !stop) { ...; fps.push(data); current += identifyCount; }\<close>
  The sum \<open>current + identifyCount\<close> is rounded, so \<open>current\<close> may stay where it is.
  With that, or with \<open>identifyCount \<le> 0\<close>, the loop never ends; the result is an option,
  and not returning is \<open>None\<close>. The flag \<open>stop\<close> is read in the loop condition; nothing
  can change it while the loop runs, so it is an argument.
\<close>

partial_function (option) fps_loop ::
  "int \<Rightarrow> 't list \<Rightarrow> bool \<Rightarrow> int \<Rightarrow> int \<Rightarrow> 't chunk list \<Rightarrow> 't chunk list option" where
  "fps_loop n its stp e current fps =
     (if current \<le> e \<and> \<not> stp then
        fps_loop n its stp e (js_add current n)
          (fps @ [\<lparr>start = current, fmds = fmds_loop n its current e 0 []\<rparr>])
      else Some fps)"

declare fps_loop.simps [code]

subsection \<open>Worker state\<close>

text \<open>
  \<open>stop\<close> and \<open>queue\<close> are the two module variables, which all searches share; \<open>queue\<close> is
  \<open>None\<close> for \<open>null\<close> and otherwise holds the array of chunks that the \<open>Queue\<close> object
  created last still has to hand out. \<open>work\<close>, \<open>count\<close> and \<open>matched\<close> are the variables
  of the latest call of \<open>verify\<close>, which the callbacks of that call close over.
  \<open>listening\<close> says that the listener registered with \<open>queue.once('done', ...)\<close> on that
  queue has not run yet. \<open>inflight\<close> holds the chunks of the latest call of \<open>verify\<close> whose
  \<open>identify\<close> promise is pending, \<open>stale\<close> the chunks of earlier calls of \<open>verify\<close> whose
  promise is still pending. \<open>submitted\<close> records every chunk the latest call of \<open>verify\<close>
  has passed to \<open>dpfp.identify\<close>, \<open>sent\<close> every message given to \<open>Worker.send\<close>, \<open>logs\<close>
  every log line.

  \<open>count\<close> is exact: it is the number of entries pushed to chunks of \<open>fps\<close>, all of which
  are in memory at once.
\<close>

record 't worker =
  stop :: bool
  queue :: "'t chunk list option"
  listening :: bool
  work :: "'t work_item"
  count :: int
  matched :: "int option"
  inflight :: "'t chunk list"
  stale :: "'t chunk list"
  submitted :: "'t chunk list"
  sent :: "'t done_msg list"
  logs :: "log_entry list"

text \<open>
  The worker after the module has been loaded. No call of \<open>verify\<close> has been made, so its
  variables do not exist yet: \<open>work\<close>, \<open>count\<close> and \<open>matched\<close> hold placeholders, which
  the first \<open>do\<close> message overwrites.
\<close>

definition new_worker :: "'t work_item \<Rightarrow> 't worker" where
  "new_worker w0 =
     \<lparr>stop = False, queue = None, listening = False, work = w0, count = 0, matched = None,
      inflight = [], stale = [], submitted = [], sent = [], logs = []\<rparr>"

subsection \<open>The queue\<close>

text \<open>
  The listener of the event \<open>done\<close> that \<open>verify\<close> registers with \<open>queue.once\<close>; \<open>once\<close>
  lets it run a single time:
  \<^verbatim>\<open>queue = null;
log('FP> [%d] Done verifying %d sample(s)', Worker.id, count);
Worker.send({cmd: 'done', work: work, matched: matched, worker: Worker.id});\<close>
\<close>

definition emit_done :: "'t env \<Rightarrow> 't worker \<Rightarrow> 't worker" where
  "emit_done E st =
     (if listening st then
        st\<lparr>listening := False, queue := None,
           logs := logs st @ [LogDone (count st)],
           sent := sent st @ [\<lparr>cmd = ''done'', msg_work = work st,
                               msg_matched = matched st, worker = worker_id E\<rparr>]\<rparr>
      else st)"

text \<open>
  Modelled from the spec: the class \<open>Queue\<close> of the package \<open>@ntlab/work\<close>, which the worker
  imports and which is not among the sources. The specification has the search submit the
  first chunk when it starts, submit the next chunk "if any remain" after an answer without
  a match and otherwise emit the outcome, emit the outcome at once and "discard any
  remaining chunks" on a match, and on cancellation stop yielding chunks and emit the
  outcome "immediately rather than waiting further"; the engine call is "the only
  suspension point". So: the constructor \<open>new Queue(fps, handler)\<close> calls \<open>next()\<close>;
  \<open>next()\<close> takes the first element off the array and runs the handler on it, or calls
  \<open>done()\<close> when the array is empty; \<open>done()\<close> emits the event \<open>done\<close>; \<open>clear()\<close> empties
  the array. The queue defers the handler and the event to the next tick; Node runs every
  pending tick and promise reaction before it delivers the next message or engine result,
  so each of them runs to its end inside the step that started it.

  Every call \<open>queue.done()\<close>, \<open>queue.clear()\<close> and \<open>queue.next()\<close> of the worker goes through
  the module variable \<open>queue\<close>, so it acts on the queue created last, also when the
  callback that makes the call belongs to an earlier search.
\<close>

definition q_done :: "'t env \<Rightarrow> 't worker \<Rightarrow> 't worker" where
  "q_done E st = emit_done E st"

definition q_clear :: "'t worker \<Rightarrow> 't worker" where
  "q_clear st = st\<lparr>queue := Some []\<rparr>"

text \<open>
  Modelled from the spec: \<open>next()\<close> of the same class \<open>Queue\<close>, as described above,
  together with the handler of \<open>verify\<close> that it starts:
  \<^verbatim>\<open>try {
    count += d.fmds.length;
    dpfp.identify(work.feature, d.fmds).then(...).catch(err => errNext(err));
}
catch (err) { errNext(err); }\<close>
  where \<open>errNext\<close> logs the error and calls \<open>queue.next()\<close> if \<open>queue\<close> is not \<open>null\<close>.
  When \<open>identify\<close> throws, the handler is therefore entered again with the next chunk.
  Otherwise one more promise is pending.
\<close>

function q_next :: "'t env \<Rightarrow> 't worker \<Rightarrow> 't worker" where
  "q_next E st =
     (case queue st of
        None \<Rightarrow> st
      | Some [] \<Rightarrow> q_done E st
      | Some (d # ds) \<Rightarrow>
          (let st1 = st\<lparr>queue := Some ds,
                        count := count st + int (length (fmds d)),
                        submitted := submitted st @ [d]\<rparr>
           in if engine_throws E d then
                (let st2 = st1\<lparr>logs := logs st1 @ [LogErr]\<rparr>
                 in if queue st2 \<noteq> None then q_next E st2 else st2)
              else st1\<lparr>inflight := inflight st1 @ [d]\<rparr>))"
  by pat_completeness auto
termination
  by (relation "measure (\<lambda>(E, st). case queue st of None \<Rightarrow> 0 | Some qs \<Rightarrow> length qs)") auto

declare q_next.simps [simp del]

text \<open>
  \<open>errNext\<close> of \<open>verify\<close>:
  \<^verbatim>\<open>error('FP> [%d] Err: %s', Worker.id, err);
if (queue) { queue.next(); }\<close>
\<close>

definition errNext :: "'t env \<Rightarrow> 't worker \<Rightarrow> 't worker" where
  "errNext E st =
     (let st1 = st\<lparr>logs := logs st @ [LogErr]\<rparr>
      in if queue st1 \<noteq> None then q_next E st1 else st1)"

subsection \<open>Messages and engine results\<close>

text \<open>
  \<open>verify(work, start, end)\<close>, called in any state of the worker: build the chunks, create
  the queue (whose constructor starts the first chunk) and register the listener. The
  assignment to \<open>queue\<close> drops the queue of the search before, if there was one, and with
  it its listener; the new variables \<open>count\<close>, \<open>matched\<close> and \<open>work\<close> take the place of the
  old ones; the calls of the engine that are pending stay pending, and their callbacks
  belong to an earlier search from now on.
\<close>

definition verify :: "'t env \<Rightarrow> 't work_item \<Rightarrow> int \<Rightarrow> int \<Rightarrow> 't worker \<Rightarrow> 't worker option" where
  "verify E w s e st =
     (case fps_loop (identifyCount E) (items w) (stop st) e s [] of
        None \<Rightarrow> None
      | Some fps \<Rightarrow>
          Some (q_next E
            (st\<lparr>queue := Some fps, listening := True, work := w, count := 0,
                matched := None, inflight := [], stale := stale st @ inflight st,
                submitted := [], logs := logs st @ [LogVerifying (work_id w) s e]\<rparr>)))"

text \<open>The message \<open>do\<close>: \<open>stop = false; verify(data.work, data.start, data.end)\<close>.\<close>

definition on_do :: "'t env \<Rightarrow> 't work_item \<Rightarrow> int \<Rightarrow> int \<Rightarrow> 't worker \<Rightarrow> 't worker option" where
  "on_do E w s e st = verify E w s e (st\<lparr>stop := False\<rparr>)"

text \<open>
  The message \<open>stop\<close>:
  \<^verbatim>\<open>stop = true;
if (queue) { log('FP> [%d] Stopping queue', Worker.id); queue.clear(); queue.done(); }\<close>
\<close>

definition on_stop :: "'t env \<Rightarrow> 't worker \<Rightarrow> 't worker" where
  "on_stop E st =
     (let st1 = st\<lparr>stop := True\<rparr>
      in if queue st1 \<noteq> None then
           q_done E (q_clear (st1\<lparr>logs := logs st1 @ [LogStopping]\<rparr>))
         else st1)"

text \<open>
  A pending promise of \<open>identify\<close> settles: it resolves with an index or rejects.
  \<^verbatim>\<open>.then(idx => {
    if (idx >= 0) {
        log('FP> [%d] Found matched at %d', Worker.id, d.start + idx);
        matched = d.start + idx;
        queue.done();
    } else if (queue) {
        queue.next();
    }
})
.catch(err => errNext(err))\<close>
  When \<open>queue\<close> is \<open>null\<close>, \<open>queue.done()\<close> throws a TypeError inside \<open>then\<close>, which the
  \<open>catch\<close> hands to \<open>errNext\<close>. The sum \<open>d.start + idx\<close> is rounded.

  \<open>on_settle E k r\<close> settles the pending call number \<open>k\<close> of the latest search; a call
  that is not pending cannot settle. \<open>drop_nth\<close> takes it off the list.
\<close>

datatype settle = Resolved int | Rejected

definition drop_nth :: "nat \<Rightarrow> 'a list \<Rightarrow> 'a list" where
  "drop_nth k xs = take k xs @ drop (Suc k) xs"

definition on_settle :: "'t env \<Rightarrow> nat \<Rightarrow> settle \<Rightarrow> 't worker \<Rightarrow> 't worker" where
  "on_settle E k r st =
     (if k < length (inflight st) then
        (let d = inflight st ! k; st0 = st\<lparr>inflight := drop_nth k (inflight st)\<rparr>
         in case r of
              Resolved idx \<Rightarrow>
                (if idx \<ge> 0 then
                   (let st1 = st0\<lparr>logs := logs st0 @ [LogFound (js_add (start d) idx)],
                                  matched := Some (js_add (start d) idx)\<rparr>
                    in if queue st1 = None then errNext E st1 else q_done E st1)
                 else if queue st0 \<noteq> None then q_next E st0
                 else st0)
            | Rejected \<Rightarrow> errNext E st0)
      else st)"

text \<open>
  The same callbacks for a pending call of an earlier search. They are closures of an
  earlier call of \<open>verify\<close>: the assignment to \<open>matched\<close> changes a variable that nothing
  reads any more, while \<open>queue\<close> is the module variable, so \<open>queue.done()\<close> and
  \<open>queue.next()\<close> act on the queue of the latest search.
\<close>

definition on_settle_stale :: "'t env \<Rightarrow> nat \<Rightarrow> settle \<Rightarrow> 't worker \<Rightarrow> 't worker" where
  "on_settle_stale E k r st =
     (if k < length (stale st) then
        (let d = stale st ! k; st0 = st\<lparr>stale := drop_nth k (stale st)\<rparr>
         in case r of
              Resolved idx \<Rightarrow>
                (if idx \<ge> 0 then
                   (let st1 = st0\<lparr>logs := logs st0 @ [LogFound (js_add (start d) idx)]\<rparr>
                    in if queue st1 = None then errNext E st1 else q_done E st1)
                 else if queue st0 \<noteq> None then q_next E st0
                 else st0)
            | Rejected \<Rightarrow> errNext E st0)
      else st)"

text \<open>
  What can happen to the worker after a \<open>do\<close> message: a \<open>stop\<close> message arrives, a pending
  call of the latest search settles, or a pending call of an earlier search settles.
  \<open>step\<close> handles one event, \<open>run\<close> a sequence of them.
\<close>

datatype event = MsgStop | Settle nat settle | SettleStale nat settle

definition step :: "'t env \<Rightarrow> event \<Rightarrow> 't worker \<Rightarrow> 't worker" where
  "step E ev st =
     (case ev of
        MsgStop \<Rightarrow> on_stop E st
      | Settle k r \<Rightarrow> on_settle E k r st
      | SettleStale k r \<Rightarrow> on_settle_stale E k r st)"

primrec run :: "'t env \<Rightarrow> 't worker \<Rightarrow> event list \<Rightarrow> 't worker" where
  "run E st [] = st"
| "run E st (ev # evs) = run E (step E ev st) evs"

text \<open>
  A search: the message \<open>do\<close> received by the worker in the state \<open>st0\<close>, followed by a
  sequence of events. The result is \<open>None\<close> when the \<open>do\<close> handler does not return.
  \<open>then_search\<close> lets a second \<open>do\<close> follow in the state a first search has reached.
\<close>

definition search :: "'t env \<Rightarrow> 't worker \<Rightarrow> 't work_item \<Rightarrow> int \<Rightarrow> int \<Rightarrow> event list \<Rightarrow> 't worker option" where
  "search E st0 w s e evs = map_option (\<lambda>st. run E st evs) (on_do E w s e st0)"

definition then_search ::
  "'t worker option \<Rightarrow> 't env \<Rightarrow> 't work_item \<Rightarrow> int \<Rightarrow> int \<Rightarrow> event list \<Rightarrow> 't worker option" where
  "then_search r E w s e evs = (case r of None \<Rightarrow> None | Some st \<Rightarrow> search E st w s e evs)"

subsection \<open>Describing the chunk list\<close>

text \<open>
  The chunks of a range in exact arithmetic, as a list: for a positive \<open>identifyCount\<close>,
  \<open>stop = false\<close> and a range within the safe integers \<open>fps_loop\<close> returns exactly this
  list (lemma \<open>fps_loop_eq\<close>).
\<close>

function chunks_from :: "int \<Rightarrow> 't list \<Rightarrow> int \<Rightarrow> int \<Rightarrow> 't chunk list" where
  "chunks_from n its c e =
     (if c \<le> e \<and> 0 < n then
        \<lparr>start = c, fmds = map (js_index its) [c .. min (c + n - 1) e]\<rparr> # chunks_from n its (c + n) e
      else [])"
  by pat_completeness auto
termination
  by (relation "measure (\<lambda>(n, its, c, e). nat (e - c + 1))") auto

declare chunks_from.simps [simp del]

text \<open>
  \<open>tiles c ds e\<close>: the chunks \<open>ds\<close> cover the indices from \<open>c\<close> to \<open>e\<close> without gap or
  overlap: the first starts at \<open>c\<close>, none is empty, each starts right after the last index
  of the one before, and the last ends at \<open>e\<close>. \<open>sizes\<close> adds up the chunk sizes.
\<close>

fun tiles :: "int \<Rightarrow> 't chunk list \<Rightarrow> int \<Rightarrow> bool" where
  "tiles c [] e = (c = e + 1)"
| "tiles c (d # ds) e = (start d = c \<and> fmds d \<noteq> [] \<and> tiles (c + int (length (fmds d))) ds e)"

definition sizes :: "'t chunk list \<Rightarrow> int" where
  "sizes ds = sum_list (map (\<lambda>d. int (length (fmds d))) ds)"

definition partitions :: "int \<Rightarrow> int \<Rightarrow> int \<Rightarrow> 't chunk list \<Rightarrow> bool" where
  "partitions n s e fps \<longleftrightarrow>
     tiles s fps e \<and>
     sorted_wrt (\<lambda>a b. start a < start b) fps \<and>
     list_all (\<lambda>d. int (length (fmds d)) \<le> n) fps \<and>
     list_all (\<lambda>d. int (length (fmds d)) = n) (butlast fps) \<and>
     sizes fps = e - s + 1"

text \<open>
  The range from \<open>s\<close> to \<open>e\<close> lies within the safe integers for batches of \<open>n\<close>: every sum
  the two loops compute is at most \<open>2^53\<close> in absolute value, and therefore exact.
\<close>

definition safe_range :: "int \<Rightarrow> int \<Rightarrow> int \<Rightarrow> bool" where
  "safe_range n s e \<longleftrightarrow> - (2 ^ 53) \<le> s \<and> e + n \<le> 2 ^ 53"

subsection \<open>Searches and their invariants\<close>

text \<open>The object literal of the \<open>done\<close> message, for a work item and a value of \<open>matched\<close>.\<close>

definition done_message :: "'t env \<Rightarrow> 't work_item \<Rightarrow> int option \<Rightarrow> 't done_msg" where
  "done_message E w m = \<lparr>cmd = ''done'', msg_work = w, msg_matched = m, worker = worker_id E\<rparr>"

text \<open>
  The states of a search for the work item \<open>w\<close> that began with a \<open>do\<close> message received
  in the state \<open>W\<close>. \<open>poised\<close>: the queue of the search exists, nothing has been sent since
  \<open>do\<close>, no match has been recorded, the count is the total size of the chunks submitted,
  and every pending call is for a submitted chunk. \<open>live\<close>: \<open>poised\<close> with a call pending.
  \<open>over\<close>: the queue is \<open>null\<close> and exactly one message has been sent since \<open>do\<close>, with
  \<open>matched\<close> either \<open>null\<close> or the rounded sum of the start of a submitted chunk and a
  non-negative offset (\<open>index_of\<close>).
\<close>

definition poised :: "'t worker \<Rightarrow> 't work_item \<Rightarrow> 't worker \<Rightarrow> bool" where
  "poised W w st \<longleftrightarrow>
     work st = w \<and> queue st \<noteq> None \<and> listening st \<and> matched st = None \<and>
     sent st = sent W \<and> count st = sizes (submitted st) \<and>
     set (inflight st) \<subseteq> set (submitted st)"

definition live :: "'t worker \<Rightarrow> 't work_item \<Rightarrow> 't worker \<Rightarrow> bool" where
  "live W w st \<longleftrightarrow> poised W w st \<and> inflight st \<noteq> []"

definition index_of :: "'t chunk list \<Rightarrow> int option \<Rightarrow> bool" where
  "index_of ds m \<longleftrightarrow>
     m = None \<or> (\<exists>d\<in>set ds. \<exists>i\<ge>0. m = Some (js_add (start d) i))"

definition over :: "'t env \<Rightarrow> 't worker \<Rightarrow> 't work_item \<Rightarrow> 't worker \<Rightarrow> bool" where
  "over E W w st \<longleftrightarrow>
     work st = w \<and> queue st = None \<and> count st = sizes (submitted st) \<and>
     (\<exists>m. sent st = sent W @ [done_message E w m] \<and> index_of (submitted st) m)"

text \<open>The chunks of the latest search that may still reach the engine or are pending there.\<close>

definition pending_chunks :: "'t worker \<Rightarrow> 't chunk set" where
  "pending_chunks st = set (inflight st) \<union> (case queue st of None \<Rightarrow> {} | Some qs \<Rightarrow> set qs)"

text \<open>
  A chunk as the loops of \<open>verify\<close> build it for the range from \<open>s\<close> to \<open>e\<close>: the rounded
  sum of its start and the position of any of its entries is at least \<open>s\<close> and has passed
  the test against \<open>e\<close>.
\<close>

definition good :: "int \<Rightarrow> int \<Rightarrow> 't chunk \<Rightarrow> bool" where
  "good s e d \<longleftrightarrow>
     (\<forall>j<length (fmds d). s \<le> js_add (start d) (int j) \<and> js_add (start d) (int j) \<le> e)"

text \<open>
  The states of a search over the chunk list \<open>fps\<close> in which no call of an earlier search
  settles. In all of them the first \<open>k\<close> chunks have been submitted and counted. \<open>ready\<close>:
  no call of the search is pending and \<open>next()\<close> is about to run. \<open>running\<close>: chunk number
  \<open>k - 1\<close> is the one pending call, the rest is in the queue, nothing has been sent.
  \<open>finished\<close>: the queue ran empty, every chunk was submitted and \<open>done\<close> was sent with
  \<open>matched = null\<close>, the count being the last line of the log.
\<close>

definition ready :: "'t worker \<Rightarrow> 't work_item \<Rightarrow> 't chunk list \<Rightarrow> nat \<Rightarrow> 't worker \<Rightarrow> bool" where
  "ready W w fps k st \<longleftrightarrow>
     k \<le> length fps \<and> work st = w \<and> queue st = Some (drop k fps) \<and>
     submitted st = take k fps \<and> count st = sizes (take k fps) \<and>
     inflight st = [] \<and> stale st = stale W @ inflight W \<and>
     listening st \<and> sent st = sent W \<and> matched st = None"

definition running :: "'t worker \<Rightarrow> 't work_item \<Rightarrow> 't chunk list \<Rightarrow> nat \<Rightarrow> 't worker \<Rightarrow> bool" where
  "running W w fps k st \<longleftrightarrow>
     0 < k \<and> k \<le> length fps \<and> work st = w \<and> queue st = Some (drop k fps) \<and>
     submitted st = take k fps \<and> count st = sizes (take k fps) \<and>
     inflight st = [fps ! (k - 1)] \<and> stale st = stale W @ inflight W \<and>
     listening st \<and> sent st = sent W \<and> matched st = None"

definition finished :: "'t env \<Rightarrow> 't worker \<Rightarrow> 't work_item \<Rightarrow> 't chunk list \<Rightarrow> 't worker \<Rightarrow> bool" where
  "finished E W w fps st \<longleftrightarrow>
     work st = w \<and> queue st = None \<and> \<not> listening st \<and> submitted st = fps \<and>
     count st = sizes fps \<and> inflight st = [] \<and> stale st = stale W @ inflight W \<and>
     matched st = None \<and>
     sent st = sent W @ [done_message E w None] \<and>
     logs st \<noteq> [] \<and> last (logs st) = LogDone (sizes fps)"

text \<open>An engine result that is no match: an index below 0, or a rejected promise.\<close>

fun negative :: "settle \<Rightarrow> bool" where
  "negative (Resolved i) = (i < 0)"
| "negative Rejected = True"

text \<open>An event that is such a result for the first pending call of the latest search.\<close>

fun negative_event :: "event \<Rightarrow> bool" where
  "negative_event (Settle k r) = (k = 0 \<and> negative r)"
| "negative_event (SettleStale k r) = False"
| "negative_event MsgStop = False"

text \<open>
  The engine contract: an index the engine resolves with is smaller than the size of the
  chunk it was asked about. \<open>obeys\<close> says that every result in a sequence of events keeps
  the contract in the state in which it arrives. Results for calls of earlier searches
  are free: what they compute is never reported.
\<close>

fun contract :: "'t worker \<Rightarrow> event \<Rightarrow> bool" where
  "contract st (Settle k (Resolved i)) =
     (if k < length (inflight st) then i < int (length (fmds (inflight st ! k))) else True)"
| "contract st (Settle k Rejected) = True"
| "contract st (SettleStale k r) = True"
| "contract st MsgStop = True"

fun obeys :: "'t env \<Rightarrow> 't worker \<Rightarrow> event list \<Rightarrow> bool" where
  "obeys E st [] = True"
| "obeys E st (ev # evs) = (contract st ev \<and> obeys E (step E ev st) evs)"

subsection \<open>Concrete inputs\<close>

text \<open>
  Engines with batches of 4 that never throw, or throw on the chunk with a given start
  index, and one with batches of 1; a work item with ten templates and one with three;
  a worker that has not searched yet.
\<close>

definition never_throws :: "nat chunk \<Rightarrow> bool" where
  "never_throws d = False"

definition example_env :: "nat env" where
  "example_env = \<lparr>identifyCount = 4, worker_id = 1, engine_throws = never_throws\<rparr>"

definition throws_at :: "int \<Rightarrow> nat chunk \<Rightarrow> bool" where
  "throws_at a d = (start d = a)"

definition throwing_env :: "int \<Rightarrow> nat env" where
  "throwing_env a = \<lparr>identifyCount = 4, worker_id = 1, engine_throws = throws_at a\<rparr>"

definition single_env :: "nat env" where
  "single_env = \<lparr>identifyCount = 1, worker_id = 1, engine_throws = never_throws\<rparr>"

definition example_work :: "nat work_item" where
  "example_work = \<lparr>work_id = 7, items = [100, 101, 102, 103, 104, 105, 106, 107, 108, 109], feature = 55\<rparr>"

definition short_work :: "nat work_item" where
  "short_work = \<lparr>work_id = 8, items = [100, 101, 102], feature = 55\<rparr>"

definition idle_worker :: "nat worker" where
  "idle_worker = new_worker example_work"

text \<open>
  A running state with the chunk 0 to 3 pending at the engine and the chunk 4 in the queue.
\<close>

definition example_state :: "nat worker" where
  "example_state =
     \<lparr>stop = False, queue = Some [\<lparr>start = 4, fmds = [Some 104]\<rparr>], listening = True,
      work = example_work, count = 4, matched = None,
      inflight = [\<lparr>start = 0, fmds = [Some 100, Some 101, Some 102, Some 103]\<rparr>],
      stale = [],
      submitted = [\<lparr>start = 0, fmds = [Some 100, Some 101, Some 102, Some 103]\<rparr>],
      sent = [], logs = [LogVerifying 7 0 4]\<rparr>"

section \<open>Properties of JavaScript numbers\<close>

lemma dround_ties_to_even:
  "dround (2 ^ 53 + 1) = 2 ^ 53" "dround (2 ^ 53 + 3) = 2 ^ 53 + 4"
  "dround (- (2 ^ 53) - 1) = - (2 ^ 53)" "dround (2 ^ 54 + 6) = 2 ^ 54 + 8"
  by (simp_all add: dround_def round_nat_def expo.simps infinity_def Let_def)

lemma expo_ge: "j \<le> expo a j"
proof (induction a j rule: expo.induct)
  case (1 a j)
  show ?case
  proof (cases "a < 2 ^ (53 + j)")
    case True
    then show ?thesis by (subst expo.simps) simp
  next
    case False
    with "1" have "Suc j \<le> expo a (Suc j)" by simp
    with False show ?thesis by (subst expo.simps) simp
  qed
qed

lemma expo_upper: "a < 2 ^ (53 + expo a j)"
proof (induction a j rule: expo.induct)
  case (1 a j)
  show ?case
  proof (cases "a < 2 ^ (53 + j)")
    case True
    then show ?thesis by (subst expo.simps) simp
  next
    case False
    with "1" have "a < 2 ^ (53 + expo a (Suc j))" by simp
    with False show ?thesis by (subst expo.simps) simp
  qed
qed

lemma expo_lower: "j < expo a j \<Longrightarrow> 2 ^ (52 + expo a j) \<le> a"
proof (induction a j rule: expo.induct)
  case (1 a j)
  show ?case
  proof (cases "a < 2 ^ (53 + j)")
    case True
    then have "expo a j = j" by (subst expo.simps) simp
    with "1.prems" show ?thesis by simp
  next
    case False
    then have e: "expo a j = expo a (Suc j)" by (subst expo.simps) simp
    show ?thesis
    proof (cases "Suc j < expo a (Suc j)")
      case True
      with "1.IH" False e show ?thesis by simp
    next
      case False
      with expo_ge [of "Suc j" a] have "expo a (Suc j) = Suc j" by simp
      with e \<open>\<not> a < 2 ^ (53 + j)\<close> show ?thesis by simp
    qed
  qed
qed

lemma expo_small: "a < 2 ^ 53 \<Longrightarrow> expo a 0 = 0"
  by (subst expo.simps) simp

lemma expo_mono: "a \<le> b \<Longrightarrow> expo a 0 \<le> expo b 0"
proof (rule ccontr)
  assume ab: "a \<le> b" and "\<not> expo a 0 \<le> expo b 0"
  then have lt: "expo b 0 < expo a 0" by simp
  then have "0 < expo a 0" by simp
  from expo_lower [OF this] have "2 ^ (52 + expo a 0) \<le> a" .
  moreover have "b < 2 ^ (53 + expo b 0)" by (rule expo_upper)
  moreover from lt have "53 + expo b 0 \<le> 52 + expo a 0" by simp
  then have "(2::nat) ^ (53 + expo b 0) \<le> 2 ^ (52 + expo a 0)"
    by (rule power_increasing) simp
  ultimately show False using ab by linarith
qed

lemma round_nat_cases:
  fixes a :: nat
  defines "u \<equiv> 2 ^ expo a 0"
  shows "round_nat a = (a div u) * u \<or> round_nat a = (a div u + 1) * u"
  by (simp add: round_nat_def Let_def u_def)

lemma round_nat_bounds:
  fixes a :: nat
  defines "u \<equiv> 2 ^ expo a 0"
  shows "(a div u) * u \<le> round_nat a" and "round_nat a \<le> (a div u + 1) * u"
  using round_nat_cases [of a] by (auto simp: u_def)

lemma quot_upper: "a div 2 ^ expo a 0 < 2 ^ 53"
proof -
  have "a < 2 ^ (53 + expo a 0)" by (rule expo_upper)
  then have "a < 2 ^ 53 * 2 ^ expo a 0" by (simp add: power_add)
  then show ?thesis by (simp add: less_mult_imp_div_less)
qed

lemma quot_lower: "0 < expo a 0 \<Longrightarrow> 2 ^ 52 \<le> a div 2 ^ expo a 0"
proof -
  assume "0 < expo a 0"
  from expo_lower [OF this] have "2 ^ 52 * 2 ^ expo a 0 \<le> a" by (simp add: power_add)
  then have "(2 ^ 52 * 2 ^ expo a 0) div 2 ^ expo a 0 \<le> a div 2 ^ expo a 0"
    by (rule div_le_mono)
  then show ?thesis by simp
qed

lemma round_nat_upper: "round_nat a \<le> 2 ^ (53 + expo a 0)"
proof -
  have "a div 2 ^ expo a 0 + 1 \<le> 2 ^ 53" using quot_upper [of a] by simp
  then have "(a div 2 ^ expo a 0 + 1) * 2 ^ expo a 0 \<le> 2 ^ 53 * 2 ^ expo a 0"
    by (rule mult_le_mono1)
  with round_nat_bounds(2) [of a] have "round_nat a \<le> 2 ^ 53 * 2 ^ expo a 0"
    by (rule order_trans)
  then show ?thesis by (simp only: power_add)
qed

lemma round_nat_lower: "0 < expo a 0 \<Longrightarrow> 2 ^ (52 + expo a 0) \<le> round_nat a"
proof -
  assume "0 < expo a 0"
  from quot_lower [OF this]
  have "2 ^ 52 * 2 ^ expo a 0 \<le> (a div 2 ^ expo a 0) * 2 ^ expo a 0"
    by (rule mult_le_mono1)
  from this round_nat_bounds(1) [of a] have "2 ^ 52 * 2 ^ expo a 0 \<le> round_nat a"
    by (rule order_trans)
  then show ?thesis by (simp only: power_add)
qed

lemma round_nat_small: "a \<le> 2 ^ 53 \<Longrightarrow> round_nat a = a"
proof (cases "a < 2 ^ 53")
  case True
  then show ?thesis by (simp add: round_nat_def expo_small)
next
  case False
  assume "a \<le> 2 ^ 53"
  with False have "a = 2 ^ 53" by simp
  then show ?thesis by (simp add: round_nat_def expo.simps Let_def)
qed

lemma round_nat_mono_same:
  assumes "a \<le> b" and "expo a 0 = expo b 0"
  shows "round_nat a \<le> round_nat b"
proof -
  define u :: nat where "u = 2 ^ expo a 0"
  have u: "0 < u" by (simp add: u_def)
  have ub: "u = 2 ^ expo b 0" using assms(2) by (simp add: u_def)
  have q: "a div u \<le> b div u" using assms(1) by (rule div_le_mono)
  show ?thesis
  proof (cases "a div u < b div u")
    case True
    then have "a div u + 1 \<le> b div u" by simp
    then have "(a div u + 1) * u \<le> (b div u) * u" by (rule mult_le_mono1)
    with round_nat_bounds(2) [of a] round_nat_bounds(1) [of b] show ?thesis
      unfolding u_def [symmetric] ub [symmetric] by linarith
  next
    case False
    with q have qe: "a div u = b div u" by simp
    have "a = (a div u) * u + a mod u" "b = (b div u) * u + b mod u" by simp_all
    with qe assms(1) have r: "a mod u \<le> b mod u" by (metis add_le_cancel_left)
    have ra: "round_nat a = (if 2 * (a mod u) < u \<or> (2 * (a mod u) = u \<and> even (a div u))
                              then (a div u) * u else (a div u + 1) * u)"
      by (simp add: round_nat_def Let_def u_def)
    have rb: "round_nat b = (if 2 * (b mod u) < u \<or> (2 * (b mod u) = u \<and> even (b div u))
                              then (b div u) * u else (b div u + 1) * u)"
      by (simp add: round_nat_def Let_def ub)
    show ?thesis unfolding ra rb using r qe by auto
  qed
qed

lemma round_nat_mono: "a \<le> b \<Longrightarrow> round_nat a \<le> round_nat b"
proof -
  assume ab: "a \<le> b"
  show ?thesis
  proof (cases "expo a 0 = expo b 0")
    case True
    with ab show ?thesis by (rule round_nat_mono_same)
  next
    case False
    with expo_mono [OF ab] have lt: "expo a 0 < expo b 0" by simp
    then have "0 < expo b 0" by simp
    from round_nat_lower [OF this] have "2 ^ (52 + expo b 0) \<le> round_nat b" .
    moreover have "round_nat a \<le> 2 ^ (53 + expo a 0)" by (rule round_nat_upper)
    moreover from lt have "53 + expo a 0 \<le> 52 + expo b 0" by simp
    then have "(2::nat) ^ (53 + expo a 0) \<le> 2 ^ (52 + expo b 0)"
      by (rule power_increasing) simp
    ultimately show ?thesis by linarith
  qed
qed

lemma dround_mono: "x \<le> y \<Longrightarrow> dround x \<le> dround y"
proof -
  assume xy: "x \<le> y"
  have inf: "0 \<le> infinity" by (simp add: infinity_def)
  show ?thesis
  proof (cases "x < 0")
    case False
    with xy have "nat \<bar>x\<bar> \<le> nat \<bar>y\<bar>" by simp
    from round_nat_mono [OF this] False xy show ?thesis
      by (simp add: dround_def Let_def min_le_iff_disj)
  next
    case True
    show ?thesis
    proof (cases "y < 0")
      case False
      have "dround x \<le> 0" using True inf by (simp add: dround_def Let_def)
      moreover have "0 \<le> dround y" using False inf by (simp add: dround_def Let_def)
      ultimately show ?thesis by (rule order_trans)
    next
      case yneg: True
      with xy have "nat \<bar>y\<bar> \<le> nat \<bar>x\<bar>" by simp
      from round_nat_mono [OF this] True yneg show ?thesis
        by (simp add: dround_def Let_def min_le_iff_disj)
    qed
  qed
qed

lemma dround_exact: "\<bar>x\<bar> \<le> 2 ^ 53 \<Longrightarrow> dround x = x"
proof -
  assume a: "\<bar>x\<bar> \<le> 2 ^ 53"
  then have "nat \<bar>x\<bar> \<le> 2 ^ 53" by simp
  then have r: "round_nat (nat \<bar>x\<bar>) = nat \<bar>x\<bar>" by (rule round_nat_small)
  have "\<bar>x\<bar> \<le> infinity" using a by (simp add: infinity_def)
  then show ?thesis by (simp add: dround_def Let_def r)
qed

lemma js_add_exact: "\<bar>a\<bar> \<le> 2 ^ 53 \<Longrightarrow> \<bar>a + b\<bar> \<le> 2 ^ 53 \<Longrightarrow> js_add a b = a + b"
  by (simp add: js_add_def dround_exact infinity_def)

lemma js_add_lower: "is_num s \<Longrightarrow> s \<le> a \<Longrightarrow> 0 \<le> b \<Longrightarrow> s \<le> js_add a b"
proof -
  assume s: "is_num s" and a: "s \<le> a" and b: "0 \<le> b"
  show ?thesis
  proof (cases "infinity \<le> \<bar>a\<bar>")
    case True
    with a show ?thesis by (simp add: js_add_def)
  next
    case False
    from a b have "s \<le> a + b" by simp
    from dround_mono [OF this] s False show ?thesis by (simp add: js_add_def is_num_def)
  qed
qed

lemma js_add_upper: "is_num e \<Longrightarrow> a \<le> e \<Longrightarrow> b \<le> 0 \<Longrightarrow> js_add a b \<le> e"
proof -
  assume e: "is_num e" and a: "a \<le> e" and b: "b \<le> 0"
  show ?thesis
  proof (cases "infinity \<le> \<bar>a\<bar>")
    case True
    with a show ?thesis by (simp add: js_add_def)
  next
    case False
    from a b have "a + b \<le> e" by simp
    from dround_mono [OF this] e False show ?thesis by (simp add: js_add_def is_num_def)
  qed
qed

lemma is_num_exact: "\<bar>x\<bar> \<le> 2 ^ 53 \<Longrightarrow> is_num x"
  by (simp add: is_num_def dround_exact)

section \<open>Properties of the chunk construction\<close>

lemma map_shift_upto: "map (\<lambda>j. f (c + j)) [0 .. m] = map f [c .. c + m]"
proof (rule nth_equalityI)
  show "length (map (\<lambda>j. f (c + j)) [0 .. m]) = length (map f [c .. c + m])" by simp
next
  fix k assume "k < length (map (\<lambda>j. f (c + j)) [0 .. m])"
  then have k: "int k \<le> m" by simp
  then show "map (\<lambda>j. f (c + j)) [0 .. m] ! k = map f [c .. c + m] ! k"
    using nth_upto [of 0 k m] nth_upto [of c k "c + m"] by simp
qed

lemma fmds_loop_safe:
  "- (2 ^ 53) \<le> c \<Longrightarrow> c + n \<le> 2 ^ 53 \<Longrightarrow> 0 \<le> i \<Longrightarrow>
   fmds_loop n its c e i acc = acc @ map (\<lambda>j. js_index its (c + j)) [i .. min (n - 1) (e - c)]"
proof (induction n its c e i acc rule: fmds_loop.induct)
  case (1 n its c e i acc)
  show ?case
  proof (cases "i < n")
    case False
    then have "[i .. min (n - 1) (e - c)] = []" by auto
    with False show ?thesis by (subst fmds_loop.simps) auto
  next
    case True
    with "1.prems" have "\<bar>c\<bar> \<le> 2 ^ 53" "\<bar>c + i\<bar> \<le> 2 ^ 53" by simp_all
    then have ja: "js_add c i = c + i" by (rule js_add_exact)
    show ?thesis
    proof (cases "c + i \<le> e")
      case le: True
      with True have "[i .. min (n - 1) (e - c)] = i # [i + 1 .. min (n - 1) (e - c)]"
        by (simp add: upto_rec1)
      moreover from "1.IH" [OF True] le ja "1.prems"
      have "fmds_loop n its c e (i + 1) (acc @ [js_index its (js_add c i)])
              = (acc @ [js_index its (js_add c i)]) @ map (\<lambda>j. js_index its (c + j)) [i + 1 .. min (n - 1) (e - c)]"
        by simp
      ultimately show ?thesis using True le ja by (subst fmds_loop.simps) simp
    next
      case False
      then have "[i .. min (n - 1) (e - c)] = []" by auto
      with True False ja show ?thesis by (subst fmds_loop.simps) auto
    qed
  qed
qed

lemma fmds_loop_content:
  assumes "- (2 ^ 53) \<le> c" and "c + n \<le> 2 ^ 53"
  shows "fmds_loop n its c e 0 [] = map (js_index its) [c .. min (c + n - 1) e]"
proof -
  have "c + min (n - 1) (e - c) = min (c + n - 1) e" by simp
  then show ?thesis using fmds_loop_safe [OF assms, of 0 its e "[]"] by (simp add: map_shift_upto)
qed

lemma fmds_loop_checked_aux:
  "length acc \<le> length (fmds_loop n its c e i acc) \<and>
   (\<forall>j. j < length (fmds_loop n its c e i acc) - length acc \<longrightarrow> js_add c (i + int j) \<le> e)"
proof (induction n its c e i acc rule: fmds_loop.induct)
  case (1 n its c e i acc)
  show ?case
  proof (cases "i < n \<and> \<not> js_add c i > e")
    case False
    then have "fmds_loop n its c e i acc = acc" by (subst fmds_loop.simps) auto
    then show ?thesis by simp
  next
    case True
    let ?acc = "acc @ [js_index its (js_add c i)]"
    from True have eq: "fmds_loop n its c e i acc = fmds_loop n its c e (i + 1) ?acc"
      by (subst fmds_loop.simps) simp
    from "1.IH" True have ih: "length ?acc \<le> length (fmds_loop n its c e (i + 1) ?acc)"
        "\<forall>j. j < length (fmds_loop n its c e (i + 1) ?acc) - length ?acc \<longrightarrow> js_add c (i + 1 + int j) \<le> e"
      by simp_all
    have "\<forall>j. j < length (fmds_loop n its c e (i + 1) ?acc) - length acc \<longrightarrow> js_add c (i + int j) \<le> e"
    proof (intro allI impI)
      fix j assume j: "j < length (fmds_loop n its c e (i + 1) ?acc) - length acc"
      show "js_add c (i + int j) \<le> e"
      proof (cases j)
        case 0
        with True show ?thesis by simp
      next
        case (Suc j')
        with j have "j' < length (fmds_loop n its c e (i + 1) ?acc) - length ?acc" by simp
        with ih(2) have "js_add c (i + 1 + int j') \<le> e" by blast
        with Suc show ?thesis by (simp add: add.assoc)
      qed
    qed
    with ih(1) eq show ?thesis by simp
  qed
qed

lemma fmds_loop_checked:
  "j < length (fmds_loop n its c e 0 []) \<Longrightarrow> js_add c (int j) \<le> e"
  using fmds_loop_checked_aux [of "[]" n its c e 0] by simp

lemma fps_loop_empty: "e < c \<Longrightarrow> fps_loop n its stp e c fps = Some fps"
  by (subst fps_loop.simps) simp

lemma fps_loop_eq:
  "0 < n \<Longrightarrow> - (2 ^ 53) \<le> c \<Longrightarrow> e + n \<le> 2 ^ 53 \<Longrightarrow>
   fps_loop n its False e c fps = Some (fps @ chunks_from n its c e)"
proof (induction n its c e arbitrary: fps rule: chunks_from.induct)
  case (1 n its c e)
  show ?case
  proof (cases "c \<le> e")
    case True
    with "1.prems" have "\<bar>c\<bar> \<le> 2 ^ 53" "\<bar>c + n\<bar> \<le> 2 ^ 53" by simp_all
    then have ja: "js_add c n = c + n" by (rule js_add_exact)
    from True "1.prems" have fm: "fmds_loop n its c e 0 [] = map (js_index its) [c .. min (c + n - 1) e]"
      by (intro fmds_loop_content) simp_all
    from "1.IH" [of "fps @ [\<lparr>start = c, fmds = map (js_index its) [c .. min (c + n - 1) e]\<rparr>]"] True "1.prems"
    have "fps_loop n its False e (c + n) (fps @ [\<lparr>start = c, fmds = map (js_index its) [c .. min (c + n - 1) e]\<rparr>])
            = Some ((fps @ [\<lparr>start = c, fmds = map (js_index its) [c .. min (c + n - 1) e]\<rparr>]) @ chunks_from n its (c + n) e)"
      by simp
    with True "1.prems"(1) ja fm show ?thesis
      by (subst fps_loop.simps, subst chunks_from.simps) simp
  next
    case False
    then show ?thesis
      by (subst fps_loop.simps, subst chunks_from.simps) simp
  qed
qed

lemma chunks_from_Nil: "chunks_from n its c e = [] \<longleftrightarrow> \<not> (c \<le> e \<and> 0 < n)"
  by (subst chunks_from.simps) simp

lemma chunks_from_Cons:
  "c \<le> e \<Longrightarrow> 0 < n \<Longrightarrow>
   chunks_from n its c e
     = \<lparr>start = c, fmds = map (js_index its) [c .. min (c + n - 1) e]\<rparr> # chunks_from n its (c + n) e"
  by (subst chunks_from.simps) simp

lemma length_exact_fmds:
  "c \<le> e \<Longrightarrow> 0 < n \<Longrightarrow> length (map (js_index its) [c .. min (c + n - 1) e]) = nat (min n (e - c + 1))"
  by simp

lemma sizes_nonneg: "0 \<le> sizes ds"
  by (induction ds) (auto simp: sizes_def)

lemma tiles_chunks_from:
  "0 < n \<Longrightarrow> c \<le> e + 1 \<Longrightarrow> tiles c (chunks_from n its c e) e"
proof (induction n its c e rule: chunks_from.induct)
  case (1 n its c e)
  show ?case
  proof (cases "c \<le> e")
    case False
    with "1.prems" show ?thesis by (simp add: chunks_from_Nil [THEN iffD2])
  next
    case True
    note eq = chunks_from_Cons [OF True "1.prems"(1), of its]
    show ?thesis
    proof (cases "c + n \<le> e + 1")
      case True
      with \<open>c \<le> e\<close> "1" show ?thesis unfolding eq by simp
    next
      case False
      then have "chunks_from n its (c + n) e = []" by (simp add: chunks_from_Nil)
      with False \<open>c \<le> e\<close> "1.prems" show ?thesis unfolding eq by simp
    qed
  qed
qed

lemma tiles_sizes: "tiles c ds e \<Longrightarrow> sizes ds = e + 1 - c"
  by (induction ds arbitrary: c) (auto simp: sizes_def)

lemma tiles_bounds:
  "tiles c ds e \<Longrightarrow> d \<in> set ds \<Longrightarrow>
     c \<le> start d \<and> start d + int (length (fmds d)) \<le> e + 1 \<and> fmds d \<noteq> []"
proof (induction ds arbitrary: c)
  case Nil
  then show ?case by simp
next
  case (Cons x xs)
  show ?case
  proof (cases "d = x")
    case True
    have "tiles (c + int (length (fmds x))) xs e" using Cons.prems(1) by simp
    then have "sizes xs = e + 1 - (c + int (length (fmds x)))" by (rule tiles_sizes)
    moreover have "0 \<le> sizes xs" by (rule sizes_nonneg)
    ultimately show ?thesis using True Cons.prems(1) by simp
  next
    case False
    with Cons.prems have "d \<in> set xs" "tiles (c + int (length (fmds x))) xs e" by auto
    from Cons.IH [OF this(2) this(1)] show ?thesis by simp
  qed
qed

lemma tiles_sorted: "tiles c ds e \<Longrightarrow> sorted_wrt (\<lambda>a b. start a < start b) ds"
proof (induction ds arbitrary: c)
  case Nil
  then show ?case by simp
next
  case (Cons x xs)
  then have t: "tiles (c + int (length (fmds x))) xs e" and x: "start x = c" "fmds x \<noteq> []"
    by auto
  have "\<forall>d\<in>set xs. start x < start d"
  proof
    fix d assume "d \<in> set xs"
    from tiles_bounds [OF t this] x show "start x < start d" by (cases "fmds x") auto
  qed
  with Cons.IH [OF t] show ?case by simp
qed

lemma chunks_from_le:
  "d \<in> set (chunks_from n its c e) \<Longrightarrow> int (length (fmds d)) \<le> n"
proof (induction n its c e rule: chunks_from.induct)
  case (1 n its c e)
  show ?case
  proof (cases "c \<le> e \<and> 0 < n")
    case True
    with "1.prems" have "d = \<lparr>start = c, fmds = map (js_index its) [c .. min (c + n - 1) e]\<rparr>
        \<or> d \<in> set (chunks_from n its (c + n) e)"
      by (subst (asm) chunks_from.simps) auto
    then show ?thesis
    proof
      assume "d = \<lparr>start = c, fmds = map (js_index its) [c .. min (c + n - 1) e]\<rparr>"
      with True show ?thesis by simp
    next
      assume "d \<in> set (chunks_from n its (c + n) e)"
      with "1.IH" True show ?thesis by simp
    qed
  next
    case False
    with "1.prems" show ?thesis by (subst (asm) chunks_from.simps) simp
  qed
qed

lemma chunks_from_butlast:
  "d \<in> set (butlast (chunks_from n its c e)) \<Longrightarrow> int (length (fmds d)) = n"
proof (induction n its c e rule: chunks_from.induct)
  case (1 n its c e)
  show ?case
  proof (cases "c \<le> e \<and> 0 < n")
    case True
    then have eq: "chunks_from n its c e =
        \<lparr>start = c, fmds = map (js_index its) [c .. min (c + n - 1) e]\<rparr> # chunks_from n its (c + n) e"
      by (simp add: chunks_from_Cons)
    show ?thesis
    proof (cases "chunks_from n its (c + n) e = []")
      case True
      with eq "1.prems" show ?thesis by simp
    next
      case False
      then have more: "c + n \<le> e" by (simp add: chunks_from_Nil)
      from False eq "1.prems"
      have "d = \<lparr>start = c, fmds = map (js_index its) [c .. min (c + n - 1) e]\<rparr>
          \<or> d \<in> set (butlast (chunks_from n its (c + n) e))" by auto
      then show ?thesis
      proof
        assume "d = \<lparr>start = c, fmds = map (js_index its) [c .. min (c + n - 1) e]\<rparr>"
        with more True show ?thesis by simp
      next
        assume "d \<in> set (butlast (chunks_from n its (c + n) e))"
        with "1.IH" True show ?thesis by simp
      qed
    qed
  next
    case False
    then have "chunks_from n its c e = []" by (simp add: chunks_from_Nil)
    with "1.prems" show ?thesis by simp
  qed
qed

lemma chunks_from_concat:
  "0 < n \<Longrightarrow> concat (map fmds (chunks_from n its c e)) = map (js_index its) [c .. e]"
proof (induction n its c e rule: chunks_from.induct)
  case (1 n its c e)
  show ?case
  proof (cases "c \<le> e")
    case False
    then show ?thesis by (simp add: chunks_from_Nil [THEN iffD2])
  next
    case True
    note eq = chunks_from_Cons [OF True "1.prems", of its]
    show ?thesis
    proof (cases "c + n \<le> e")
      case True
      with \<open>0 < n\<close> have "[c .. e] = [c .. c + n - 1] @ [c + n .. e]"
        using upto_split1 [of c "c + n" e] by simp
      moreover have "min (c + n - 1) e = c + n - 1" using True by simp
      ultimately show ?thesis using \<open>c \<le> e\<close> "1" unfolding eq by simp
    next
      case False
      then have "chunks_from n its (c + n) e = []" by (simp add: chunks_from_Nil)
      moreover have "min (c + n - 1) e = e" using False by simp
      ultimately show ?thesis unfolding eq by simp
    qed
  qed
qed

text \<open>
  C1, as stated for every \<open>start \<le> end\<close>, does not hold. Indices are JavaScript numbers,
  and from \<open>2^53\<close> upward the sums \<open>current + i\<close> and \<open>current + identifyCount\<close> are
  rounded. For the range from \<open>2^53 - 2\<close> to \<open>2^53 + 4\<close>, which has seven indices, and
  batches of 4 the loop builds two chunks of four entries each: \<open>2^53 + 1\<close> rounds to
  \<open>2^53\<close>, and \<open>2^53 + 3\<close> and \<open>2^53 + 5\<close> round to \<open>2^53 + 4\<close>, so both chunks pass the
  test \<open>current + i > end\<close> four times. The sizes add up to 8, not to 7, and the chunks do
  not follow one another without overlap.
\<close>

theorem verify_chunks_rounding_counterexample:
  "fps_loop 4 [] False (2 ^ 53 + 4) (2 ^ 53 - 2) []
     = Some [\<lparr>start = 2 ^ 53 - 2, fmds = [None, None, None, None :: nat option]\<rparr>,
             \<lparr>start = 2 ^ 53 + 2, fmds = [None, None, None, None]\<rparr>] \<and>
   map_option sizes (fps_loop 4 ([] :: nat list) False (2 ^ 53 + 4) (2 ^ 53 - 2) []) = Some 8 \<and>
   (2 ^ 53 + 4) - (2 ^ 53 - 2) + 1 = (7 :: int)"
  by (simp add: fps_loop.simps fmds_loop.simps js_add_def dround_def round_nat_def expo.simps
      infinity_def js_index_def sizes_def Let_def)

text \<open>
  C1 as amended: for \<open>start \<le> end\<close>, a positive \<open>identifyCount\<close> and a range within the
  safe integers (\<open>-2^53 \<le> start\<close> and \<open>end + identifyCount \<le> 2^53\<close>, where every addition
  of the loop is exact) the loop returns, and its chunks partition \<open>[start, end]\<close>: they
  follow one another without gap or overlap from \<open>start\<close> to \<open>end\<close>, their start indices
  increase strictly, none has more than \<open>identifyCount\<close> entries, all but the last have
  exactly \<open>identifyCount\<close>, and the sizes add up to \<open>end - start + 1\<close>.
\<close>

theorem verify_chunks_partition_range:
  assumes "s \<le> e" and "0 < n" and "safe_range n s e"
  shows "\<exists>fps. fps_loop n its False e s [] = Some fps \<and> partitions n s e fps"
proof -
  let ?fps = "chunks_from n its s e"
  have t: "tiles s ?fps e" using assms by (simp add: tiles_chunks_from)
  have "partitions n s e ?fps"
    unfolding partitions_def list_all_iff
    using t tiles_sorted [OF t] tiles_sizes [OF t]
    by (auto simp: chunks_from_le chunks_from_butlast)
  moreover have "fps_loop n its False e s [] = Some ?fps"
    using assms by (simp add: fps_loop_eq safe_range_def)
  ultimately show ?thesis by blast
qed

theorem verify_chunks_partition_range_witness:
  "(0::int) \<le> 9 \<and> (0::int) < 4 \<and> safe_range 4 0 9 \<and>
   (\<exists>fps. fps_loop 4 [10, 11, 12 :: nat] False 9 0 [] = Some fps \<and> partitions 4 0 9 fps)"
  using verify_chunks_partition_range [of 0 9 4 "[10, 11, 12 :: nat]"] by (simp add: safe_range_def)

section \<open>Properties of the queue\<close>

lemma sizes_Nil [simp]: "sizes [] = 0"
  by (simp add: sizes_def)

lemma sizes_Cons [simp]: "sizes (d # ds) = int (length (fmds d)) + sizes ds"
  by (simp add: sizes_def)

lemma sizes_append [simp]: "sizes (xs @ ys) = sizes xs + sizes ys"
  by (simp add: sizes_def)

lemma q_next_None: "queue st = None \<Longrightarrow> q_next E st = st"
  by (subst q_next.simps) simp

lemma q_next_Nil: "queue st = Some [] \<Longrightarrow> q_next E st = q_done E st"
  by (subst q_next.simps) simp

lemma q_next_throw:
  "queue st = Some (d # ds) \<Longrightarrow> engine_throws E d \<Longrightarrow>
   q_next E st = q_next E (st\<lparr>queue := Some ds, count := count st + int (length (fmds d)),
                               submitted := submitted st @ [d], logs := logs st @ [LogErr]\<rparr>)"
  by (subst q_next.simps) (simp add: Let_def)

lemma q_next_submit:
  "queue st = Some (d # ds) \<Longrightarrow> \<not> engine_throws E d \<Longrightarrow>
   q_next E st = st\<lparr>queue := Some ds, count := count st + int (length (fmds d)),
                    submitted := submitted st @ [d], inflight := inflight st @ [d]\<rparr>"
  by (subst q_next.simps) (simp add: Let_def)

lemma q_next_split:
  "queue st = Some qs \<Longrightarrow>
   (\<exists>ts d ds. qs = ts @ d # ds \<and> (\<forall>t\<in>set ts. engine_throws E t) \<and> \<not> engine_throws E d \<and>
      q_next E st = st\<lparr>queue := Some ds, count := count st + sizes (ts @ [d]),
                       submitted := submitted st @ ts @ [d],
                       logs := logs st @ replicate (length ts) LogErr,
                       inflight := inflight st @ [d]\<rparr>)
   \<or> ((\<forall>t\<in>set qs. engine_throws E t) \<and>
      q_next E st = q_done E (st\<lparr>queue := Some [], count := count st + sizes qs,
                                submitted := submitted st @ qs,
                                logs := logs st @ replicate (length qs) LogErr\<rparr>))"
proof (induction qs arbitrary: st)
  case Nil
  then have e: "st\<lparr>queue := Some []\<rparr> = st"
    by (cases st) simp
  have "q_next E st = q_done E (st\<lparr>queue := Some []\<rparr>)"
    by (simp only: e q_next_Nil [OF Nil])
  then show ?case by simp
next
  case (Cons q qs)
  show ?case
  proof (cases "engine_throws E q")
    case False
    show ?thesis
      apply (rule disjI1)
      apply (rule exI [of _ "[]"])
      apply (rule exI [of _ q])
      apply (rule exI [of _ qs])
      apply (simp add: q_next_submit [OF Cons.prems False] False)
      done
  next
    case True
    let ?st2 = "st\<lparr>queue := Some qs, count := count st + int (length (fmds q)),
                   submitted := submitted st @ [q], logs := logs st @ [LogErr]\<rparr>"
    have eq: "q_next E st = q_next E ?st2" using Cons.prems True by (rule q_next_throw)
    have "queue ?st2 = Some qs" by simp
    from Cons.IH [OF this] show ?thesis
    proof
      assume "\<exists>ts d ds. qs = ts @ d # ds \<and> (\<forall>t\<in>set ts. engine_throws E t) \<and> \<not> engine_throws E d \<and>
         q_next E ?st2 = ?st2\<lparr>queue := Some ds, count := count ?st2 + sizes (ts @ [d]),
                       submitted := submitted ?st2 @ ts @ [d],
                       logs := logs ?st2 @ replicate (length ts) LogErr,
                       inflight := inflight ?st2 @ [d]\<rparr>"
      then obtain ts d ds where a: "qs = ts @ d # ds" "\<forall>t\<in>set ts. engine_throws E t" "\<not> engine_throws E d"
        and b: "q_next E ?st2 = ?st2\<lparr>queue := Some ds, count := count ?st2 + sizes (ts @ [d]),
                       submitted := submitted ?st2 @ ts @ [d],
                       logs := logs ?st2 @ replicate (length ts) LogErr,
                       inflight := inflight ?st2 @ [d]\<rparr>"
        by blast
      have c: "q_next E st = st\<lparr>queue := Some ds, count := count st + sizes ((q # ts) @ [d]),
                       submitted := submitted st @ (q # ts) @ [d],
                       logs := logs st @ replicate (length (q # ts)) LogErr,
                       inflight := inflight st @ [d]\<rparr>"
        unfolding eq b by (simp add: add.assoc)
      show ?thesis
        apply (rule disjI1)
        apply (rule exI [of _ "q # ts"])
        apply (rule exI [of _ d])
        apply (rule exI [of _ ds])
        apply (intro conjI)
           apply (simp add: a)
          apply (simp add: a True)
         apply (rule a(3))
        apply (rule c)
        done
    next
      assume "(\<forall>t\<in>set qs. engine_throws E t) \<and>
         q_next E ?st2 = q_done E (?st2\<lparr>queue := Some [], count := count ?st2 + sizes qs,
                                submitted := submitted ?st2 @ qs,
                                logs := logs ?st2 @ replicate (length qs) LogErr\<rparr>)"
      then have a: "\<forall>t\<in>set qs. engine_throws E t"
        and b: "q_next E ?st2 = q_done E (?st2\<lparr>queue := Some [], count := count ?st2 + sizes qs,
                                submitted := submitted ?st2 @ qs,
                                logs := logs ?st2 @ replicate (length qs) LogErr\<rparr>)"
        by simp_all
      have c: "q_next E st = q_done E (st\<lparr>queue := Some [], count := count st + sizes (q # qs),
                                submitted := submitted st @ q # qs,
                                logs := logs st @ replicate (length (q # qs)) LogErr\<rparr>)"
        unfolding eq b by (simp add: add.assoc)
      show ?thesis
        apply (rule disjI2)
        apply (rule conjI)
         apply (simp add: a True)
        apply (rule c)
        done
    qed
  qed
qed

lemma q_next_poised:
  assumes "poised W w st"
  shows "live W w (q_next E st)
       \<or> (over E W w (q_next E st) \<and> sent (q_next E st) = sent W @ [done_message E w None])"
proof -
  from assms obtain qs where q: "queue st = Some qs" by (auto simp: poised_def)
  from assms have r: "work st = w" "listening st" "matched st = None" "sent st = sent W"
      "count st = sizes (submitted st)" "set (inflight st) \<subseteq> set (submitted st)"
    by (simp_all add: poised_def)
  from q_next_split [OF q, of E] show ?thesis
  proof
    assume "\<exists>ts d ds. qs = ts @ d # ds \<and> (\<forall>t\<in>set ts. engine_throws E t) \<and> \<not> engine_throws E d \<and>
      q_next E st = st\<lparr>queue := Some ds, count := count st + sizes (ts @ [d]),
                       submitted := submitted st @ ts @ [d],
                       logs := logs st @ replicate (length ts) LogErr,
                       inflight := inflight st @ [d]\<rparr>"
    then obtain ts d ds where
      b: "q_next E st = st\<lparr>queue := Some ds, count := count st + sizes (ts @ [d]),
                       submitted := submitted st @ ts @ [d],
                       logs := logs st @ replicate (length ts) LogErr,
                       inflight := inflight st @ [d]\<rparr>"
      by blast
    have "live W w (q_next E st)" unfolding b live_def poised_def using r by auto
    then show ?thesis by simp
  next
    assume "(\<forall>t\<in>set qs. engine_throws E t) \<and>
      q_next E st = q_done E (st\<lparr>queue := Some [], count := count st + sizes qs,
                                submitted := submitted st @ qs,
                                logs := logs st @ replicate (length qs) LogErr\<rparr>)"
    then have b: "q_next E st = q_done E (st\<lparr>queue := Some [], count := count st + sizes qs,
                                submitted := submitted st @ qs,
                                logs := logs st @ replicate (length qs) LogErr\<rparr>)"
      by simp
    have "over E W w (q_next E st) \<and> sent (q_next E st) = sent W @ [done_message E w None]"
      unfolding b q_done_def emit_done_def over_def using r
      by (simp add: done_message_def index_of_def)
    then show ?thesis by simp
  qed
qed

lemma q_done_poised:
  assumes "work st = w" "queue st \<noteq> None" "listening st" "sent st = sent W"
    "count st = sizes (submitted st)" "index_of (submitted st) (matched st)"
  shows "over E W w (q_done E st)"
    and "sent (q_done E st) = sent W @ [done_message E w (matched st)]"
    and "submitted (q_done E st) = submitted st"
    and "inflight (q_done E st) = inflight st"
    and "stop (q_done E st) = stop st"
    and "logs (q_done E st) = logs st @ [LogDone (count st)]"
  using assms by (simp_all add: q_done_def emit_done_def over_def done_message_def)

lemma q_next_pending: "pending_chunks (q_next E st) \<subseteq> pending_chunks st"
proof (cases "queue st")
  case None
  then show ?thesis by (simp add: q_next_None)
next
  case (Some qs)
  from q_next_split [OF Some, of E] show ?thesis
  proof (elim disjE exE conjE)
    fix ts d ds
    assume "qs = ts @ d # ds"
      and "q_next E st = st\<lparr>queue := Some ds, count := count st + sizes (ts @ [d]),
                       submitted := submitted st @ ts @ [d],
                       logs := logs st @ replicate (length ts) LogErr,
                       inflight := inflight st @ [d]\<rparr>"
    with Some show ?thesis by (auto simp: pending_chunks_def)
  next
    assume "q_next E st = q_done E (st\<lparr>queue := Some [], count := count st + sizes qs,
                                submitted := submitted st @ qs,
                                logs := logs st @ replicate (length qs) LogErr\<rparr>)"
    with Some show ?thesis by (auto simp: pending_chunks_def q_done_def emit_done_def)
  qed
qed

lemma q_next_matched: "matched (q_next E st) = matched st"
proof (cases "queue st")
  case None
  then show ?thesis by (simp add: q_next_None)
next
  case (Some qs)
  from q_next_split [OF Some, of E] show ?thesis
  proof (elim disjE exE conjE)
    fix ts d ds
    assume "q_next E st = st\<lparr>queue := Some ds, count := count st + sizes (ts @ [d]),
                       submitted := submitted st @ ts @ [d],
                       logs := logs st @ replicate (length ts) LogErr,
                       inflight := inflight st @ [d]\<rparr>"
    then show ?thesis by simp
  next
    assume "q_next E st = q_done E (st\<lparr>queue := Some [], count := count st + sizes qs,
                                submitted := submitted st @ qs,
                                logs := logs st @ replicate (length qs) LogErr\<rparr>)"
    then show ?thesis by (simp add: q_done_def emit_done_def)
  qed
qed

section \<open>Properties of searches\<close>

subsection \<open>One event\<close>

lemma set_drop_nth: "set (drop_nth k xs) \<subseteq> set xs"
  unfolding drop_nth_def using set_take_subset [of k xs] set_drop_subset [of "Suc k" xs] by auto

lemma live_stop:
  assumes "live W w st"
  shows "over E W w (on_stop E st)"
    and "sent (on_stop E st) = sent W @ [done_message E w None]"
    and "stop (on_stop E st)" and "queue (on_stop E st) = None"
    and "submitted (on_stop E st) = submitted st"
    and "inflight (on_stop E st) = inflight st"
    and "count (on_stop E st) = count st"
    and "LogDone (count st) \<in> set (logs (on_stop E st))"
proof -
  from assms have r: "work st = w" "queue st \<noteq> None" "listening st" "matched st = None"
      "sent st = sent W" "count st = sizes (submitted st)"
    by (simp_all add: live_def poised_def)
  let ?st2 = "q_clear (st\<lparr>stop := True, logs := logs st @ [LogStopping]\<rparr>)"
  have eq: "on_stop E st = q_done E ?st2" using r by (simp add: on_stop_def Let_def)
  have p: "work ?st2 = w" "queue ?st2 \<noteq> None" "listening ?st2" "sent ?st2 = sent W"
      "count ?st2 = sizes (submitted ?st2)" "index_of (submitted ?st2) (matched ?st2)"
    using r by (simp_all add: q_clear_def index_of_def)
  note q = q_done_poised [OF p, of E]
  show "over E W w (on_stop E st)" unfolding eq by (rule q(1))
  show "sent (on_stop E st) = sent W @ [done_message E w None]"
    unfolding eq q(2) using r by (simp add: q_clear_def)
  show "stop (on_stop E st)" unfolding eq q(5) by (simp add: q_clear_def)
  show "queue (on_stop E st) = None" using q(1) unfolding eq by (simp add: over_def)
  show "submitted (on_stop E st) = submitted st" unfolding eq q(3) by (simp add: q_clear_def)
  show "inflight (on_stop E st) = inflight st" unfolding eq q(4) by (simp add: q_clear_def)
  show "count (on_stop E st) = count st" unfolding eq by (simp add: q_clear_def q_done_def emit_done_def)
  show "LogDone (count st) \<in> set (logs (on_stop E st))" unfolding eq q(6) by (simp add: q_clear_def)
qed

lemma live_settle_match:
  assumes "live W w st" and "k < length (inflight st)" and "0 \<le> i"
  shows "over E W w (on_settle E k (Resolved i) st)"
    and "sent (on_settle E k (Resolved i) st)
           = sent W @ [done_message E w (Some (js_add (start (inflight st ! k)) i))]"
    and "submitted (on_settle E k (Resolved i) st) = submitted st"
    and "matched (on_settle E k (Resolved i) st) = Some (js_add (start (inflight st ! k)) i)"
proof -
  from assms(1) have r: "work st = w" "queue st \<noteq> None" "listening st" "matched st = None"
      "sent st = sent W" "count st = sizes (submitted st)"
    by (simp_all add: live_def poised_def)
  from assms(1,2) have mem: "inflight st ! k \<in> set (submitted st)"
    by (auto simp: live_def poised_def)
  let ?m = "js_add (start (inflight st ! k)) i"
  let ?st1 = "st\<lparr>inflight := drop_nth k (inflight st), logs := logs st @ [LogFound ?m],
                 matched := Some ?m\<rparr>"
  from r(2) obtain q where q0: "queue st = Some q" by auto
  have eq: "on_settle E k (Resolved i) st = q_done E ?st1"
    using q0 assms(2,3) by (simp add: on_settle_def Let_def)
  have "index_of (submitted st) (Some ?m)"
    unfolding index_of_def using mem assms(3) by blast
  then have p: "work ?st1 = w" "queue ?st1 \<noteq> None" "listening ?st1" "sent ?st1 = sent W"
      "count ?st1 = sizes (submitted ?st1)" "index_of (submitted ?st1) (matched ?st1)"
    using r by simp_all
  note q = q_done_poised [OF p, of E]
  show "over E W w (on_settle E k (Resolved i) st)" unfolding eq by (rule q(1))
  show "sent (on_settle E k (Resolved i) st) = sent W @ [done_message E w (Some ?m)]"
    unfolding eq q(2) by simp
  show "submitted (on_settle E k (Resolved i) st) = submitted st" unfolding eq q(3) by simp
  show "matched (on_settle E k (Resolved i) st) = Some ?m"
    unfolding eq by (simp add: q_done_def emit_done_def)
qed

lemma live_step:
  assumes "live W w st"
  shows "live W w (step E ev st) \<or> over E W w (step E ev st)"
proof -
  from assms have p: "poised W w st" by (simp add: live_def)
  then have r: "work st = w" "queue st \<noteq> None" "listening st" "matched st = None"
      "sent st = sent W" "count st = sizes (submitted st)"
    by (simp_all add: poised_def)
  have p1: "poised W w (st\<lparr>inflight := drop_nth k (inflight st)\<rparr>)"
      "poised W w (st\<lparr>inflight := drop_nth k (inflight st), logs := l\<rparr>)"
      "poised W w (st\<lparr>stale := xs\<rparr>)" "poised W w (st\<lparr>stale := xs, logs := l\<rparr>)" for k xs l
    using p set_drop_nth [of k "inflight st"] by (auto simp: poised_def)
  show ?thesis
  proof (cases ev)
    case MsgStop
    with live_stop(1) [OF assms, of E] show ?thesis by (simp add: step_def)
  next
    case (Settle k x)
    show ?thesis
    proof (cases "k < length (inflight st)")
      case False
      with Settle assms show ?thesis by (simp add: step_def on_settle_def)
    next
      case True
      show ?thesis
      proof (cases x)
        case Rejected
        with True r have "on_settle E k x st
            = q_next E (st\<lparr>inflight := drop_nth k (inflight st), logs := logs st @ [LogErr]\<rparr>)"
          by (simp add: on_settle_def errNext_def Let_def)
        with q_next_poised [OF p1(2), of E] Settle show ?thesis by (auto simp: step_def)
      next
        case (Resolved i)
        show ?thesis
        proof (cases "0 \<le> i")
          case True
          with live_settle_match(1) [OF assms \<open>k < length (inflight st)\<close> True, of E] Settle Resolved
          show ?thesis by (simp add: step_def)
        next
          case False
          with True r Resolved have "on_settle E k x st
            = q_next E (st\<lparr>inflight := drop_nth k (inflight st)\<rparr>)"
            by (simp add: on_settle_def Let_def)
          with q_next_poised [OF p1(1), of E] Settle show ?thesis by (auto simp: step_def)
        qed
      qed
    qed
  next
    case (SettleStale k x)
    show ?thesis
    proof (cases "k < length (stale st)")
      case False
      with SettleStale assms show ?thesis by (simp add: step_def on_settle_stale_def)
    next
      case True
      show ?thesis
      proof (cases x)
        case Rejected
        with True r have "on_settle_stale E k x st
            = q_next E (st\<lparr>stale := drop_nth k (stale st), logs := logs st @ [LogErr]\<rparr>)"
          by (simp add: on_settle_stale_def errNext_def Let_def)
        with q_next_poised [OF p1(4), of E] SettleStale show ?thesis by (auto simp: step_def)
      next
        case (Resolved i)
        show ?thesis
        proof (cases "0 \<le> i")
          case pos: True
          let ?st1 = "st\<lparr>stale := drop_nth k (stale st),
              logs := logs st @ [LogFound (js_add (start (stale st ! k)) i)]\<rparr>"
          from r(2) obtain q where q0: "queue st = Some q" by auto
          from pos True q0 Resolved have eq: "on_settle_stale E k x st = q_done E ?st1"
            by (simp add: on_settle_stale_def Let_def)
          have "work ?st1 = w" "queue ?st1 \<noteq> None" "listening ?st1" "sent ?st1 = sent W"
              "count ?st1 = sizes (submitted ?st1)" "index_of (submitted ?st1) (matched ?st1)"
            using r by (simp_all add: index_of_def)
          from q_done_poised(1) [OF this, of E] eq SettleStale show ?thesis by (simp add: step_def)
        next
          case False
          with True r Resolved have "on_settle_stale E k x st
            = q_next E (st\<lparr>stale := drop_nth k (stale st)\<rparr>)"
            by (simp add: on_settle_stale_def Let_def)
          with q_next_poised [OF p1(3), of E] SettleStale show ?thesis by (auto simp: step_def)
        qed
      qed
    qed
  qed
qed

lemma over_step:
  assumes "over E W w st"
  shows "over E W w (step E ev st)"
    and "sent (step E ev st) = sent st"
    and "submitted (step E ev st) = submitted st"
    and "count (step E ev st) = count st"
proof -
  from assms have q: "queue st = None" by (simp add: over_def)
  show s: "sent (step E ev st) = sent st"
    using q by (auto simp: step_def on_stop_def on_settle_def on_settle_stale_def errNext_def Let_def
        split: event.splits settle.splits)
  show u: "submitted (step E ev st) = submitted st"
    using q by (auto simp: step_def on_stop_def on_settle_def on_settle_stale_def errNext_def Let_def
        split: event.splits settle.splits)
  show c: "count (step E ev st) = count st"
    using q by (auto simp: step_def on_stop_def on_settle_def on_settle_stale_def errNext_def Let_def
        split: event.splits settle.splits)
  have "queue (step E ev st) = None" "work (step E ev st) = work st"
    using q by (auto simp: step_def on_stop_def on_settle_def on_settle_stale_def errNext_def Let_def
        split: event.splits settle.splits)
  with assms s u c show "over E W w (step E ev st)" by (simp add: over_def)
qed


lemma live_or_over_step:
  "live W w st \<or> over E W w st \<Longrightarrow> live W w (step E ev st) \<or> over E W w (step E ev st)"
  using live_step [of W w st E ev] over_step(1) [of E W w st ev] by blast

lemma live_or_over_run:
  "live W w st \<or> over E W w st \<Longrightarrow> live W w (run E st evs) \<or> over E W w (run E st evs)"
proof (induction evs arbitrary: st)
  case Nil
  then show ?case by simp
next
  case (Cons ev evs)
  from Cons.IH [OF live_or_over_step [OF Cons.prems]] show ?case by simp
qed

lemma run_append: "run E st (xs @ ys) = run E (run E st xs) ys"
  by (induction xs arbitrary: st) simp_all

subsection \<open>The message do\<close>

lemma on_do_Some:
  assumes "on_do E w s e W = Some st0"
  obtains fps where "fps_loop (identifyCount E) (items w) False e s [] = Some fps"
    and "st0 = q_next E
           (W\<lparr>stop := False, queue := Some fps, listening := True, work := w, count := 0,
              matched := None, inflight := [], stale := stale W @ inflight W,
              submitted := [], logs := logs W @ [LogVerifying (work_id w) s e]\<rparr>)"
  using assms by (auto simp: on_do_def verify_def split: option.splits)

lemma on_do_live:
  assumes "on_do E w s e W = Some st0"
  shows "live W w st0 \<or> over E W w st0"
proof -
  from assms obtain fps where
    st0: "st0 = q_next E
           (W\<lparr>stop := False, queue := Some fps, listening := True, work := w, count := 0,
              matched := None, inflight := [], stale := stale W @ inflight W,
              submitted := [], logs := logs W @ [LogVerifying (work_id w) s e]\<rparr>)"
    by (rule on_do_Some)
  have "poised W w
           (W\<lparr>stop := False, queue := Some fps, listening := True, work := w, count := 0,
              matched := None, inflight := [], stale := stale W @ inflight W,
              submitted := [], logs := logs W @ [LogVerifying (work_id w) s e]\<rparr>)"
    by (simp add: poised_def)
  from q_next_poised [OF this, of E] st0 show ?thesis by auto
qed

lemma search_run: "on_do E w s e W = Some st0 \<Longrightarrow> search E W w s e evs = Some (run E st0 evs)"
  by (simp add: search_def)

lemma search_live:
  assumes "search E W w s e evs = Some st"
  shows "live W w st \<or> over E W w st"
proof -
  from assms obtain st0 where a: "on_do E w s e W = Some st0" and b: "st = run E st0 evs"
    by (auto simp: search_def)
  from live_or_over_run [OF on_do_live [OF a]] b show ?thesis by simp
qed


lemma fps_loop_total:
  assumes "(0 < n \<and> safe_range n s e) \<or> e < s"
  shows "fps_loop n its False e s [] = Some (chunks_from n its s e)"
  using assms
proof
  assume "0 < n \<and> safe_range n s e"
  then show ?thesis by (simp add: fps_loop_eq safe_range_def)
next
  assume "e < s"
  moreover from this have "chunks_from n its s e = []" by (simp add: chunks_from_Nil)
  ultimately show ?thesis by (simp add: fps_loop_empty)
qed

lemma on_do_total:
  assumes "(0 < identifyCount E \<and> safe_range (identifyCount E) s e) \<or> e < s"
  shows "\<exists>st0. on_do E w s e W = Some st0"
  using fps_loop_total [OF assms, of "items w"] by (simp add: on_do_def verify_def)

subsection \<open>The loop of verify\<close>

lemma fps_loop_stalls:
  assumes "c \<le> e" and "js_add c n = c"
  shows "fps_loop n its False e c acc = None"
proof (cases "fps_loop n its False e c acc")
  case None
  then show ?thesis .
next
  case (Some r)
  have "\<not> (c \<le> e \<and> js_add c n = c \<and> \<not> False)"
  proof (rule fps_loop.raw_induct
      [where P = "\<lambda>n its stp e c acc r. \<not> (c \<le> e \<and> js_add c n = c \<and> \<not> stp)", OF _ Some])
    fix f :: "int \<Rightarrow> 'a list \<Rightarrow> bool \<Rightarrow> int \<Rightarrow> int \<Rightarrow> 'a chunk list \<Rightarrow> 'a chunk list option"
    fix n its stp e c acc r
    assume IH: "\<And>n its stp e c acc r. f n its stp e c acc = Some r \<Longrightarrow>
                  \<not> (c \<le> e \<and> js_add c n = c \<and> \<not> stp)"
      and eq: "(if c \<le> e \<and> \<not> stp
                then f n its stp e (js_add c n) (acc @ [\<lparr>start = c, fmds = fmds_loop n its c e 0 []\<rparr>])
                else Some acc) = Some r"
    show "\<not> (c \<le> e \<and> js_add c n = c \<and> \<not> stp)"
    proof
      assume a: "c \<le> e \<and> js_add c n = c \<and> \<not> stp"
      with eq have "f n its stp e (js_add c n) (acc @ [\<lparr>start = c, fmds = fmds_loop n its c e 0 []\<rparr>]) = Some r"
        by simp
      from IH [OF this] a show False by simp
    qed
  qed
  with assms show ?thesis by simp
qed

lemma fps_loop_good:
  assumes "fps_loop n its stp e c acc = Some r" and "is_num s" and "0 \<le> n"
    and "s \<le> c" and "\<forall>d\<in>set acc. good s e d"
  shows "\<forall>d\<in>set r. good s e d"
proof -
  have "is_num s \<and> 0 \<le> n \<and> s \<le> c \<and> (\<forall>d\<in>set acc. good s e d) \<longrightarrow> (\<forall>d\<in>set r. good s e d)"
  proof (rule fps_loop.raw_induct
      [where P = "\<lambda>n its stp e c acc r.
         is_num s \<and> 0 \<le> n \<and> s \<le> c \<and> (\<forall>d\<in>set acc. good s e d) \<longrightarrow> (\<forall>d\<in>set r. good s e d)",
       OF _ assms(1)])
    fix f :: "int \<Rightarrow> 'a list \<Rightarrow> bool \<Rightarrow> int \<Rightarrow> int \<Rightarrow> 'a chunk list \<Rightarrow> 'a chunk list option"
    fix n its stp e c acc r
    assume IH: "\<And>n its stp e c acc r. f n its stp e c acc = Some r \<Longrightarrow>
         is_num s \<and> 0 \<le> n \<and> s \<le> c \<and> (\<forall>d\<in>set acc. good s e d) \<longrightarrow> (\<forall>d\<in>set r. good s e d)"
      and eq: "(if c \<le> e \<and> \<not> stp
                then f n its stp e (js_add c n) (acc @ [\<lparr>start = c, fmds = fmds_loop n its c e 0 []\<rparr>])
                else Some acc) = Some r"
    show "is_num s \<and> 0 \<le> n \<and> s \<le> c \<and> (\<forall>d\<in>set acc. good s e d) \<longrightarrow> (\<forall>d\<in>set r. good s e d)"
    proof
      assume a: "is_num s \<and> 0 \<le> n \<and> s \<le> c \<and> (\<forall>d\<in>set acc. good s e d)"
      show "\<forall>d\<in>set r. good s e d"
      proof (cases "c \<le> e \<and> \<not> stp")
        case True
        let ?d = "\<lparr>start = c, fmds = fmds_loop n its c e 0 []\<rparr>"
        from True eq have "f n its stp e (js_add c n) (acc @ [?d]) = Some r" by simp
        note ih = IH [OF this]
        have g: "good s e ?d" using a by (simp add: good_def fmds_loop_checked js_add_lower)
        from a have "s \<le> js_add c n" by (simp add: js_add_lower)
        with ih a g show ?thesis by simp
      next
        case False
        with eq a show ?thesis by auto
      qed
    qed
  qed
  with assms show ?thesis by simp
qed

lemma fmds_loop_nonpos: "n \<le> 0 \<Longrightarrow> fmds_loop n its c e 0 acc = acc"
  by (subst fmds_loop.simps) simp

lemma fps_loop_empty_chunks:
  assumes "fps_loop n its stp e c acc = Some r" and "n \<le> 0" and "\<forall>d\<in>set acc. fmds d = []"
  shows "\<forall>d\<in>set r. fmds d = []"
proof -
  have "n \<le> 0 \<and> (\<forall>d\<in>set acc. fmds d = []) \<longrightarrow> (\<forall>d\<in>set r. fmds d = [])"
  proof (rule fps_loop.raw_induct
      [where P = "\<lambda>n its stp e c acc r.
         n \<le> 0 \<and> (\<forall>d\<in>set acc. fmds d = []) \<longrightarrow> (\<forall>d\<in>set r. fmds d = [])",
       OF _ assms(1)])
    fix f :: "int \<Rightarrow> 'a list \<Rightarrow> bool \<Rightarrow> int \<Rightarrow> int \<Rightarrow> 'a chunk list \<Rightarrow> 'a chunk list option"
    fix n its stp e c acc r
    assume IH: "\<And>n its stp e c acc r. f n its stp e c acc = Some r \<Longrightarrow>
         n \<le> 0 \<and> (\<forall>d\<in>set acc. fmds d = []) \<longrightarrow> (\<forall>d\<in>set r. fmds d = [])"
      and eq: "(if c \<le> e \<and> \<not> stp
                then f n its stp e (js_add c n) (acc @ [\<lparr>start = c, fmds = fmds_loop n its c e 0 []\<rparr>])
                else Some acc) = Some r"
    show "n \<le> 0 \<and> (\<forall>d\<in>set acc. fmds d = []) \<longrightarrow> (\<forall>d\<in>set r. fmds d = [])"
    proof
      assume a: "n \<le> 0 \<and> (\<forall>d\<in>set acc. fmds d = [])"
      show "\<forall>d\<in>set r. fmds d = []"
      proof (cases "c \<le> e \<and> \<not> stp")
        case True
        let ?d = "\<lparr>start = c, fmds = fmds_loop n its c e 0 []\<rparr>"
        from True eq have "f n its stp e (js_add c n) (acc @ [?d]) = Some r" by simp
        from IH [OF this] a show ?thesis by (simp add: fmds_loop_nonpos)
      next
        case False
        with eq a show ?thesis by auto
      qed
    qed
  qed
  with assms show ?thesis by simp
qed

lemma fps_loop_all_good:
  assumes "fps_loop n its False e s [] = Some fps" and "is_num s"
  shows "\<forall>d\<in>set fps. good s e d"
proof (cases "0 \<le> n")
  case True
  with fps_loop_good [OF assms(1,2)] show ?thesis by simp
next
  case False
  with fps_loop_empty_chunks [OF assms(1)] have "\<forall>d\<in>set fps. fmds d = []" by simp
  then show ?thesis by (simp add: good_def)
qed

subsection \<open>One search alone\<close>

lemma take_drop_extend:
  "drop k xs = a @ b \<Longrightarrow> take k xs @ a = take (k + length a) xs \<and> drop (k + length a) xs = b"
proof -
  assume h: "drop k xs = a @ b"
  have "take (k + length a) xs = take k xs @ take (length a) (drop k xs)"
    by (rule take_add)
  moreover have "drop (k + length a) xs = drop (length a) (drop k xs)"
    by (simp add: add.commute)
  ultimately show ?thesis using h by simp
qed

lemma q_next_ready_throws:
  assumes "ready W w fps k st"
  shows "(\<exists>k'. k < k' \<and> running W w fps k' (q_next E st) \<and>
            (\<forall>t\<in>set (take (k' - 1 - k) (drop k fps)). engine_throws E t))
       \<or> (finished E W w fps (q_next E st) \<and> (\<forall>t\<in>set (drop k fps). engine_throws E t))"
proof -
  from assms have q: "queue st = Some (drop k fps)" and k: "k \<le> length fps"
    and r: "work st = w" "submitted st = take k fps" "count st = sizes (take k fps)"
       "inflight st = []" "stale st = stale W @ inflight W" "listening st" "sent st = sent W"
       "matched st = None"
    by (simp_all add: ready_def)
  from q_next_split [OF q, of E] show ?thesis
  proof
    assume "\<exists>ts d ds. drop k fps = ts @ d # ds \<and> (\<forall>t\<in>set ts. engine_throws E t) \<and> \<not> engine_throws E d \<and>
      q_next E st = st\<lparr>queue := Some ds, count := count st + sizes (ts @ [d]),
                       submitted := submitted st @ ts @ [d],
                       logs := logs st @ replicate (length ts) LogErr,
                       inflight := inflight st @ [d]\<rparr>"
    then obtain ts d ds where a: "drop k fps = (ts @ [d]) @ ds"
      and thr: "\<forall>t\<in>set ts. engine_throws E t"
      and b: "q_next E st = st\<lparr>queue := Some ds, count := count st + sizes (ts @ [d]),
                       submitted := submitted st @ ts @ [d],
                       logs := logs st @ replicate (length ts) LogErr,
                       inflight := inflight st @ [d]\<rparr>"
      by auto
    let ?k = "k + length (ts @ [d])"
    from take_drop_extend [OF a]
    have t: "take k fps @ ts @ [d] = take ?k fps" and dr: "drop ?k fps = ds" by simp_all
    have "length (drop k fps) = length (ts @ [d]) + length ds" using a by simp
    then have kl: "?k \<le> length fps" by simp
    have "fps = take k fps @ ts @ d # ds" using a by (metis append_take_drop_id append.assoc append_Cons append_Nil)
    then have "fps ! (k + length ts) = (take k fps @ ts @ d # ds) ! (k + length ts)" by simp
    also have "\<dots> = d" using k by (simp add: nth_append)
    finally have nth: "fps ! (?k - 1) = d" by simp
    have "sizes (take ?k fps) = sizes (take k fps) + sizes (ts @ [d])"
      using t [symmetric] by (simp only: sizes_append append_assoc)
    then have ru: "running W w fps ?k (q_next E st)"
      unfolding running_def b using r kl nth t dr by simp
    have lt: "k < ?k" by simp
    have "take (?k - 1 - k) (drop k fps) = ts" using a by simp
    with thr have tk: "\<forall>t\<in>set (take (?k - 1 - k) (drop k fps)). engine_throws E t" by simp
    show ?thesis
      apply (rule disjI1)
      apply (rule exI [of _ ?k])
      apply (intro conjI)
        apply (rule lt)
       apply (rule ru)
      apply (rule tk)
      done
  next
    assume "(\<forall>t\<in>set (drop k fps). engine_throws E t) \<and>
      q_next E st = q_done E (st\<lparr>queue := Some [], count := count st + sizes (drop k fps),
                                submitted := submitted st @ drop k fps,
                                logs := logs st @ replicate (length (drop k fps)) LogErr\<rparr>)"
    then have b: "q_next E st = q_done E (st\<lparr>queue := Some [], count := count st + sizes (drop k fps),
                                submitted := submitted st @ drop k fps,
                                logs := logs st @ replicate (length (drop k fps)) LogErr\<rparr>)"
      and thr: "\<forall>t\<in>set (drop k fps). engine_throws E t"
      by simp_all
    have "sizes (take k fps) + sizes (drop k fps) = sizes (take k fps @ drop k fps)"
      by (simp only: sizes_append)
    then have s: "sizes (take k fps) + sizes (drop k fps) = sizes fps" by simp
    have "finished E W w fps (q_next E st)"
      unfolding finished_def b q_done_def emit_done_def using r s
      by (simp add: done_message_def)
    then show ?thesis using thr by simp
  qed
qed

lemma q_next_ready:
  assumes "ready W w fps k st"
  shows "(\<exists>k'. k < k' \<and> running W w fps k' (q_next E st)) \<or> finished E W w fps (q_next E st)"
proof -
  from q_next_ready_throws [OF assms, of E] show ?thesis
  proof
    assume "\<exists>k'. k < k' \<and> running W w fps k' (q_next E st) \<and>
            (\<forall>t\<in>set (take (k' - 1 - k) (drop k fps)). engine_throws E t)"
    then obtain k' where "k < k'" "running W w fps k' (q_next E st)" by auto
    then show ?thesis by auto
  next
    assume "finished E W w fps (q_next E st) \<and> (\<forall>t\<in>set (drop k fps). engine_throws E t)"
    then show ?thesis by simp
  qed
qed

lemma drop_nth_single [simp]: "drop_nth 0 [x] = []"
  by (simp add: drop_nth_def)

lemma running_ready:
  "running W w fps k st \<Longrightarrow> ready W w fps k (st\<lparr>inflight := []\<rparr>)"
  "running W w fps k st \<Longrightarrow> ready W w fps k (st\<lparr>inflight := [], logs := l\<rparr>)"
  by (simp_all add: running_def ready_def)

lemma running_settle_eq:
  assumes "running W w fps k st" and "negative r"
  shows "on_settle E 0 r st = q_next E (st\<lparr>inflight := []\<rparr>)
       \<or> on_settle E 0 r st = q_next E (st\<lparr>inflight := [], logs := logs st @ [LogErr]\<rparr>)"
  using assms
  by (cases r) (simp_all add: on_settle_def errNext_def running_def Let_def)

lemma running_settle_negative:
  assumes "running W w fps k st" and "negative r"
  shows "(\<exists>k'. k < k' \<and> running W w fps k' (on_settle E 0 r st)) \<or> finished E W w fps (on_settle E 0 r st)"
  using running_settle_eq [OF assms, of E]
    q_next_ready [OF running_ready(1) [OF assms(1)], of E]
    q_next_ready [OF running_ready(2) [OF assms(1)], of E "logs st @ [LogErr]"]
  by auto

lemma finished_settle: "finished E W w fps st \<Longrightarrow> step E (Settle k r) st = st"
  by (simp add: finished_def step_def on_settle_def)

lemma finished_negative_run:
  "finished E W w fps st \<Longrightarrow> list_all negative_event evs \<Longrightarrow> run E st evs = st"
proof (induction evs)
  case Nil
  then show ?case by simp
next
  case (Cons ev evs)
  then obtain k r where "ev = Settle k r" by (cases ev) auto
  with Cons show ?case by (simp add: finished_settle)
qed

lemma negative_run:
  assumes "running W w fps k st" and "list_all negative_event evs"
  shows "(\<exists>k'. k + length evs \<le> k' \<and> running W w fps k' (run E st evs))
       \<or> finished E W w fps (run E st evs)"
  using assms
proof (induction evs arbitrary: st k)
  case Nil
  then show ?case by auto
next
  case (Cons ev evs)
  then obtain r where ev: "ev = Settle 0 r" "negative r" and rest: "list_all negative_event evs"
    by (cases ev) auto
  from running_settle_negative [OF Cons.prems(1) ev(2), of E]
  show ?case
  proof
    assume "\<exists>k'. k < k' \<and> running W w fps k' (on_settle E 0 r st)"
    then obtain k' where k': "k < k'" "running W w fps k' (on_settle E 0 r st)" by blast
    from Cons.IH [OF k'(2) rest]
    show ?thesis
    proof
      assume "\<exists>k''. k' + length evs \<le> k'' \<and> running W w fps k'' (run E (on_settle E 0 r st) evs)"
      then obtain k'' where "k' + length evs \<le> k''" "running W w fps k'' (run E (on_settle E 0 r st) evs)"
        by blast
      with k'(1) have "k + length (ev # evs) \<le> k'' \<and> running W w fps k'' (run E st (ev # evs))"
        by (simp add: ev step_def)
      then show ?thesis by blast
    next
      assume "finished E W w fps (run E (on_settle E 0 r st) evs)"
      then show ?thesis by (simp add: ev step_def)
    qed
  next
    assume "finished E W w fps (on_settle E 0 r st)"
    then have "finished E W w fps (run E (on_settle E 0 r st) evs)"
      using rest by (simp add: finished_negative_run)
    then show ?thesis by (simp add: ev step_def)
  qed
qed

lemma negative_run_finished:
  assumes "(\<exists>k. running W w fps k st) \<or> finished E W w fps st"
    and "list_all negative_event evs" and "length fps \<le> length evs"
  shows "finished E W w fps (run E st evs)"
  using assms(1)
proof
  assume "finished E W w fps st"
  then show ?thesis using assms(2) by (simp add: finished_negative_run)
next
  assume "\<exists>k. running W w fps k st"
  then obtain k where r: "running W w fps k st" by blast
  then have "0 < k" by (simp add: running_def)
  from negative_run [OF r assms(2), of E] show ?thesis
  proof
    assume "\<exists>k'. k + length evs \<le> k' \<and> running W w fps k' (run E st evs)"
    then obtain k' where "k + length evs \<le> k'" "k' \<le> length fps"
      by (auto simp: running_def)
    with \<open>0 < k\<close> assms(3) show ?thesis by simp
  qed
qed

lemma q_next_ready_no_throw:
  assumes "ready W w fps k st" and "\<forall>d. \<not> engine_throws E d"
  shows "if k < length fps then running W w fps (Suc k) (q_next E st)
         else finished E W w fps (q_next E st)"
proof (cases "k < length fps")
  case True
  from assms(1) have r: "work st = w" "submitted st = take k fps" "count st = sizes (take k fps)"
      "inflight st = []" "stale st = stale W @ inflight W" "listening st" "sent st = sent W"
      "matched st = None"
    and q: "queue st = Some (drop k fps)"
    by (simp_all add: ready_def)
  from True have d: "drop k fps = fps ! k # drop (Suc k) fps"
    by (simp add: Cons_nth_drop_Suc)
  from True have t: "take (Suc k) fps = take k fps @ [fps ! k]"
    by (simp add: take_Suc_conv_app_nth)
  have "queue st = Some (fps ! k # drop (Suc k) fps)" using q d by simp
  from q_next_submit [OF this, of E] assms(2)
  have "q_next E st = st\<lparr>queue := Some (drop (Suc k) fps),
          count := count st + int (length (fmds (fps ! k))),
          submitted := submitted st @ [fps ! k], inflight := inflight st @ [fps ! k]\<rparr>"
    by simp
  then have "running W w fps (Suc k) (q_next E st)"
    using r True t by (simp add: running_def)
  with True show ?thesis by simp
next
  case False
  with assms(1) have k: "k = length fps" by (simp add: ready_def)
  from assms(1) k have r: "work st = w" "submitted st = fps" "count st = sizes fps"
      "inflight st = []" "stale st = stale W @ inflight W" "listening st" "sent st = sent W"
      "matched st = None"
    and q: "queue st = Some []"
    by (simp_all add: ready_def)
  have "finished E W w fps (q_next E st)"
    unfolding q_next_Nil [OF q] q_done_def emit_done_def finished_def
    using r by (simp add: done_message_def)
  with False show ?thesis by simp
qed

lemma no_throw_position:
  assumes "running W w fps 1 st0" and "\<forall>d. \<not> engine_throws E d" and "negative r"
  shows "j < length fps \<Longrightarrow> running W w fps (Suc j) (run E st0 (replicate j (Settle 0 r)))"
proof (induction j)
  case 0
  with assms(1) show ?case by simp
next
  case (Suc j)
  then have r: "running W w fps (Suc j) (run E st0 (replicate j (Settle 0 r)))" by simp
  let ?st = "run E st0 (replicate j (Settle 0 r))"
  have "replicate (Suc j) (Settle 0 r) = replicate j (Settle 0 r) @ [Settle 0 r]"
    by (simp add: replicate_append_same)
  then have eq: "run E st0 (replicate (Suc j) (Settle 0 r)) = on_settle E 0 r ?st"
    by (simp only: run_append) (simp add: step_def)
  note os = running_settle_eq [OF r assms(3), of E]
  from q_next_ready_no_throw [OF running_ready(1) [OF r] assms(2)] Suc.prems
  have a: "running W w fps (Suc (Suc j)) (q_next E (?st\<lparr>inflight := []\<rparr>))" by simp
  from q_next_ready_no_throw [OF running_ready(2) [OF r] assms(2)] Suc.prems
  have b: "running W w fps (Suc (Suc j)) (q_next E (?st\<lparr>inflight := [], logs := logs ?st @ [LogErr]\<rparr>))"
    by simp
  from os a b show ?case unfolding eq by auto
qed

lemma ready_initial:
  "ready W w fps 0
     (W\<lparr>stop := False, queue := Some fps, listening := True, work := w, count := 0,
        matched := None, inflight := [], stale := stale W @ inflight W,
        submitted := [], logs := l\<rparr>)"
  by (simp add: ready_def)

lemma on_do_solo:
  assumes "on_do E w s e W = Some st0"
  shows "\<exists>fps. fps_loop (identifyCount E) (items w) False e s [] = Some fps \<and>
     ((\<exists>k. 0 < k \<and> running W w fps k st0 \<and> (\<forall>t\<in>set (take (k - 1) fps). engine_throws E t))
       \<or> (finished E W w fps st0 \<and> (\<forall>t\<in>set fps. engine_throws E t)))"
proof -
  from assms obtain fps where f: "fps_loop (identifyCount E) (items w) False e s [] = Some fps"
    and st0: "st0 = q_next E
           (W\<lparr>stop := False, queue := Some fps, listening := True, work := w, count := 0,
              matched := None, inflight := [], stale := stale W @ inflight W,
              submitted := [], logs := logs W @ [LogVerifying (work_id w) s e]\<rparr>)"
    by (rule on_do_Some)
  from q_next_ready_throws
         [OF ready_initial [of W w fps "logs W @ [LogVerifying (work_id w) s e]"], of E] st0 f
  show ?thesis
    by (intro exI [of _ fps]) auto
qed

lemma on_do_no_throw:
  assumes "on_do E w s e W = Some st0" and "\<forall>d. \<not> engine_throws E d"
    and "fps_loop (identifyCount E) (items w) False e s [] = Some fps"
  shows "if fps = [] then finished E W w [] st0 else running W w fps 1 st0"
proof -
  from assms(1) obtain fps' where f: "fps_loop (identifyCount E) (items w) False e s [] = Some fps'"
    and st0: "st0 = q_next E
           (W\<lparr>stop := False, queue := Some fps', listening := True, work := w, count := 0,
              matched := None, inflight := [], stale := stale W @ inflight W,
              submitted := [], logs := logs W @ [LogVerifying (work_id w) s e]\<rparr>)"
    by (rule on_do_Some)
  from f assms(3) have "fps' = fps" by simp
  with q_next_ready_no_throw
         [OF ready_initial [of W w fps' "logs W @ [LogVerifying (work_id w) s e]"] assms(2)] st0
  show ?thesis by (auto split: if_splits)
qed

subsection \<open>The matched index\<close>

lemma pending_step: "pending_chunks (step E ev st) \<subseteq> pending_chunks st"
proof -
  have a: "pending_chunks (q_next E (st\<lparr>inflight := drop_nth k (inflight st)\<rparr>)) \<subseteq> pending_chunks st"
    "pending_chunks (q_next E (st\<lparr>inflight := drop_nth k (inflight st), logs := l\<rparr>)) \<subseteq> pending_chunks st"
    "pending_chunks (q_next E (st\<lparr>stale := xs\<rparr>)) \<subseteq> pending_chunks st"
    "pending_chunks (q_next E (st\<lparr>stale := xs, logs := l\<rparr>)) \<subseteq> pending_chunks st" for k l xs
    using q_next_pending [of E "st\<lparr>inflight := drop_nth k (inflight st)\<rparr>"]
      q_next_pending [of E "st\<lparr>inflight := drop_nth k (inflight st), logs := l\<rparr>"]
      q_next_pending [of E "st\<lparr>stale := xs\<rparr>"]
      q_next_pending [of E "st\<lparr>stale := xs, logs := l\<rparr>"]
      set_drop_nth [of k "inflight st"]
    by (auto simp: pending_chunks_def)
  have b: "pending_chunks (st\<lparr>inflight := drop_nth k (inflight st)\<rparr>) \<subseteq> pending_chunks st" for k
    using set_drop_nth [of k "inflight st"] by (auto simp: pending_chunks_def)
  show ?thesis
  proof (cases ev)
    case MsgStop
    then show ?thesis
      by (auto simp: step_def on_stop_def q_done_def q_clear_def emit_done_def pending_chunks_def Let_def)
  next
    case (Settle k r)
    show ?thesis
    proof (cases "k < length (inflight st)")
      case False
      with Settle show ?thesis by (simp add: step_def on_settle_def)
    next
      case True
      show ?thesis
      proof (cases r)
        case Rejected
        with True Settle a(2) [where k = k and l = "logs st @ [LogErr]"] b [of k] show ?thesis
          by (auto simp: step_def on_settle_def errNext_def Let_def pending_chunks_def)
      next
        case (Resolved i)
        with True Settle a(1) [where k = k] b [of k] show ?thesis
          by (auto simp: step_def on_settle_def errNext_def Let_def pending_chunks_def
              q_done_def emit_done_def)
      qed
    qed
  next
    case (SettleStale k r)
    show ?thesis
    proof (cases "k < length (stale st)")
      case False
      with SettleStale show ?thesis by (simp add: step_def on_settle_stale_def)
    next
      case True
      show ?thesis
      proof (cases r)
        case Rejected
        with True SettleStale a(4) [where xs = "drop_nth k (stale st)" and l = "logs st @ [LogErr]"] show ?thesis
          by (auto simp: step_def on_settle_stale_def errNext_def Let_def pending_chunks_def)
      next
        case (Resolved i)
        with True SettleStale a(3) [where xs = "drop_nth k (stale st)"] show ?thesis
          by (auto simp: step_def on_settle_stale_def errNext_def Let_def pending_chunks_def
              q_done_def emit_done_def)
      qed
    qed
  qed
qed

lemma js_add_small: "\<bar>a\<bar> \<le> 2 ^ 53 \<and> \<bar>a + b\<bar> \<le> 2 ^ 53 \<Longrightarrow> js_add a b = a + b"
  by (simp add: js_add_exact)

lemmas eval_simps = search_def then_search_def on_do_def verify_def fps_loop.simps fmds_loop.simps
  js_index_def q_next.simps q_done_def emit_done_def step_def on_settle_def on_settle_stale_def
  on_stop_def errNext_def q_clear_def drop_nth_def Let_def example_env_def example_work_def
  short_work_def never_throws_def new_worker_def idle_worker_def js_add_small done_message_def

lemmas round_simps = js_add_def dround_def round_nat_def expo.simps infinity_def

subsection \<open>A match\<close>




subsection \<open>Exhausted searches\<close>

lemma list_all_replicate_negative: "negative r \<Longrightarrow> list_all negative_event (replicate j (Settle 0 r))"
  by (induction j) simp_all

text \<open>
  C3, as stated, does not hold, for two reasons. First, rounding: for the range from
  \<open>2^53 - 2\<close> to \<open>2^53 + 4\<close> and batches of 4, with \<open>-1\<close> answered on both chunks, the search
  ends with \<open>matched = null\<close> and the count 8, while \<open>end - start + 1\<close> is 7. Second, the
  variable \<open>queue\<close> is shared by all searches: a search over 0 to 9 is cancelled while its
  first call is pending, a second search starts, and the late answer \<open>-1\<close> of the first
  call runs \<open>queue.next()\<close> on the queue of the second search. The second search then has
  two calls pending, for its chunks starting at 0 and at 4.
\<close>

theorem all_no_match_counterexample:
  "map_option count
     (search example_env idle_worker example_work (2 ^ 53 - 2) (2 ^ 53 + 4)
        [Settle 0 (Resolved (- 1)), Settle 0 (Resolved (- 1))]) = Some 8 \<and>
   map_option sent
     (search example_env idle_worker example_work (2 ^ 53 - 2) (2 ^ 53 + 4)
        [Settle 0 (Resolved (- 1)), Settle 0 (Resolved (- 1))])
     = Some [\<lparr>cmd = ''done'', msg_work = example_work, msg_matched = None, worker = 1\<rparr>] \<and>
   (2 ^ 53 + 4) - (2 ^ 53 - 2) + 1 = (7 :: int) \<and>
   map_option (map start \<circ> inflight)
     (then_search (search example_env idle_worker example_work 0 9 [MsgStop])
        example_env short_work 0 9 [SettleStale 0 (Resolved (- 1))]) = Some [0, 4]"
  by (simp add: eval_simps round_simps del: js_add_small)

text \<open>
  C3 as amended: \<open>start \<le> end\<close>, the range lies within the safe integers, \<open>identifyCount\<close>
  is positive, no call of an earlier search is pending when \<open>do\<close> arrives, and the engine
  never throws and answers every chunk with \<open>-1\<close>. Then the chunks go to the engine one at
  a time and in order: after \<open>j\<close> answers the chunk number \<open>j\<close> is the only pending call
  and exactly the first \<open>j + 1\<close> chunks have been submitted. After as many answers as there
  are chunks the search has ended: no call is pending, the \<open>done\<close> message carries
  \<open>matched = null\<close>, and the count, which is the one logged last, is \<open>end - start + 1\<close>.
\<close>

theorem all_no_match_search_is_exhausted:
  assumes "s \<le> e" and "0 < identifyCount E" and "safe_range (identifyCount E) s e"
    and "\<forall>d. \<not> engine_throws E d" and "inflight W = []" and "stale W = []"
  shows "\<exists>fps. fps_loop (identifyCount E) (items w) False e s [] = Some fps \<and>
     (\<forall>j<length fps. \<exists>st. search E W w s e (replicate j (Settle 0 (Resolved (- 1)))) = Some st \<and>
         inflight st = [fps ! j] \<and> stale st = [] \<and> submitted st = take (Suc j) fps \<and>
         sent st = sent W) \<and>
     (\<exists>st. search E W w s e (replicate (length fps) (Settle 0 (Resolved (- 1)))) = Some st \<and>
         inflight st = [] \<and> stale st = [] \<and> submitted st = fps \<and> matched st = None \<and>
         count st = e - s + 1 \<and> last (logs st) = LogDone (e - s + 1) \<and>
         sent st = sent W @ [done_message E w None])"
proof -
  let ?fps = "chunks_from (identifyCount E) (items w) s e"
  let ?ev = "Settle 0 (Resolved (- 1))"
  have f: "fps_loop (identifyCount E) (items w) False e s [] = Some ?fps"
    using assms(2,3) by (simp add: fps_loop_total)
  from on_do_total [of E s e w W] assms(2,3) obtain st0 where st0: "on_do E w s e W = Some st0"
    by auto
  have ne: "?fps \<noteq> []" using assms(1,2) by (simp add: chunks_from_Nil)
  with on_do_no_throw [OF st0 assms(4) f] have r1: "running W w ?fps 1 st0" by simp
  have neg: "negative (Resolved (- 1))" by simp
  have sz: "sizes ?fps = e - s + 1"
    using tiles_sizes [OF tiles_chunks_from [of "identifyCount E" s e "items w"]] assms(1,2) by simp
  have seq: "\<forall>j<length ?fps. \<exists>st. search E W w s e (replicate j ?ev) = Some st \<and>
         inflight st = [?fps ! j] \<and> stale st = [] \<and> submitted st = take (Suc j) ?fps \<and>
         sent st = sent W"
  proof (intro allI impI)
    fix j assume "j < length ?fps"
    from no_throw_position [OF r1 assms(4) neg this]
    have "running W w ?fps (Suc j) (run E st0 (replicate j ?ev))" .
    then show "\<exists>st. search E W w s e (replicate j ?ev) = Some st \<and>
         inflight st = [?fps ! j] \<and> stale st = [] \<and> submitted st = take (Suc j) ?fps \<and>
         sent st = sent W"
      using assms(5,6) by (simp add: search_run [OF st0] running_def)
  qed
  from r1 have "(\<exists>k. running W w ?fps k st0) \<or> finished E W w ?fps st0" by blast
  from negative_run_finished [OF this list_all_replicate_negative [OF neg], of "length ?fps"]
  have "finished E W w ?fps (run E st0 (replicate (length ?fps) ?ev))" by simp
  then have fin: "\<exists>st. search E W w s e (replicate (length ?fps) ?ev) = Some st \<and>
         inflight st = [] \<and> stale st = [] \<and> submitted st = ?fps \<and> matched st = None \<and>
         count st = e - s + 1 \<and> last (logs st) = LogDone (e - s + 1) \<and>
         sent st = sent W @ [done_message E w None]"
    using sz assms(5,6) by (simp add: search_run [OF st0] finished_def)
  from f seq fin show ?thesis by blast
qed

theorem all_no_match_search_is_exhausted_witness:
  "(0::int) \<le> 9 \<and> 0 < identifyCount example_env \<and> safe_range (identifyCount example_env) 0 9 \<and>
   (\<forall>d. \<not> engine_throws example_env d) \<and> inflight idle_worker = [] \<and> stale idle_worker = [] \<and>
   (\<exists>st. search example_env idle_worker example_work 0 9 (replicate 3 (Settle 0 (Resolved (- 1)))) = Some st \<and>
         inflight st = [] \<and> matched st = None \<and> count st = 10 \<and>
         sent st = [done_message example_env example_work None])"
proof -
  have a: "(0::int) \<le> 9" by simp
  have b: "0 < identifyCount example_env" by (simp add: example_env_def)
  have b': "safe_range (identifyCount example_env) 0 9" by (simp add: example_env_def safe_range_def)
  have c: "\<forall>d. \<not> engine_throws example_env d" by (simp add: example_env_def never_throws_def)
  have d: "inflight idle_worker = []" "stale idle_worker = []" "sent idle_worker = []"
    by (simp_all add: idle_worker_def new_worker_def)
  have l: "fps_loop (identifyCount example_env) (items example_work) False 9 0 [] = Some fps
           \<Longrightarrow> length fps = 3" for fps
    by (auto simp: example_env_def example_work_def fps_loop.simps js_add_small)
  from all_no_match_search_is_exhausted [OF a b b' c d(1,2), of example_work] l d(3)
  have "\<exists>st. search example_env idle_worker example_work 0 9 (replicate 3 (Settle 0 (Resolved (- 1)))) = Some st \<and>
         inflight st = [] \<and> matched st = None \<and> count st = 10 \<and>
         sent st = [done_message example_env example_work None]"
    by auto
  with a b b' c d show ?thesis by blast
qed

subsection \<open>Cancellation\<close>





subsection \<open>Engine failures\<close>

text \<open>
  C5: a failing engine call is logged and is otherwise the same as the answer \<open>-1\<close>.
  First part: a rejected promise leaves the worker in the state the answer \<open>-1\<close> would
  have left it in, with one more error line in the log. Second part: when \<open>identify\<close>
  throws on the chunk at the head of the queue, the chunk is counted, the error is logged
  and \<open>next()\<close> goes on with the rest of the queue. Third part: whatever state the worker
  was in when \<open>do\<close> arrived, when every answer is a failure or \<open>-1\<close>, in any mixture, and
  there are at least as many answers as chunks, the search has ended with all chunks
  submitted and one \<open>done\<close> message with \<open>matched = null\<close>; the message does not tell
  failures from true negatives.
\<close>

theorem engine_failure_counts_as_no_match:
  "(k < length (inflight st) \<longrightarrow>
      step E (Settle k Rejected) st
        = step E (Settle k (Resolved (- 1))) (st\<lparr>logs := logs st @ [LogErr]\<rparr>)) \<and>
   (queue st = Some (d # ds) \<and> engine_throws E d \<longrightarrow>
      q_next E st = q_next E (st\<lparr>queue := Some ds, count := count st + int (length (fmds d)),
                                  submitted := submitted st @ [d], logs := logs st @ [LogErr]\<rparr>)) \<and>
   (fps_loop (identifyCount E) (items w) False e s [] = Some fps \<and>
      list_all negative_event evs \<and> length fps \<le> length evs \<longrightarrow>
      (\<exists>st'. search E W w s e evs = Some st' \<and> inflight st' = [] \<and> submitted st' = fps \<and>
         count st' = sizes fps \<and> matched st' = None \<and> sent st' = sent W @ [done_message E w None]))"
proof (intro conjI impI)
  assume "k < length (inflight st)"
  then show "step E (Settle k Rejected) st
        = step E (Settle k (Resolved (- 1))) (st\<lparr>logs := logs st @ [LogErr]\<rparr>)"
    by (cases st) (simp add: step_def on_settle_def errNext_def Let_def)
next
  assume "queue st = Some (d # ds) \<and> engine_throws E d"
  then show "q_next E st = q_next E (st\<lparr>queue := Some ds, count := count st + int (length (fmds d)),
                                  submitted := submitted st @ [d], logs := logs st @ [LogErr]\<rparr>)"
    by (simp add: q_next_throw)
next
  assume a: "fps_loop (identifyCount E) (items w) False e s [] = Some fps \<and>
      list_all negative_event evs \<and> length fps \<le> length evs"
  then obtain st0 where od: "on_do E w s e W = Some st0" by (auto simp: on_do_def verify_def)
  from on_do_solo [OF od] a have "(\<exists>k. running W w fps k st0) \<or> finished E W w fps st0"
    by auto
  from negative_run_finished [OF this, of evs] a
  have "finished E W w fps (run E st0 evs)" by simp
  then show "\<exists>st'. search E W w s e evs = Some st' \<and> inflight st' = [] \<and> submitted st' = fps \<and>
         count st' = sizes fps \<and> matched st' = None \<and> sent st' = sent W @ [done_message E w None]"
    by (simp add: search_run [OF od] finished_def)
qed

theorem engine_failure_counts_as_no_match_witness:
  "0 < length (inflight example_state) \<and>
   step (throwing_env 4) (Settle 0 Rejected) example_state
     = step (throwing_env 4) (Settle 0 (Resolved (- 1))) (example_state\<lparr>logs := logs example_state @ [LogErr]\<rparr>) \<and>
   sent (step (throwing_env 4) (Settle 0 Rejected) example_state) = [done_message (throwing_env 4) example_work None] \<and>
   count (step (throwing_env 4) (Settle 0 Rejected) example_state) = 5 \<and>
   logs (step (throwing_env 4) (Settle 0 Rejected) example_state)
     = [LogVerifying 7 0 4, LogErr, LogErr, LogDone 5]"
proof -
  have a: "0 < length (inflight example_state)"
    by (simp add: example_state_def)
  have b: "sent (step (throwing_env 4) (Settle 0 (Resolved (- 1))) (example_state\<lparr>logs := logs example_state @ [LogErr]\<rparr>))
            = [done_message (throwing_env 4) example_work None]"
      "count (step (throwing_env 4) (Settle 0 (Resolved (- 1))) (example_state\<lparr>logs := logs example_state @ [LogErr]\<rparr>)) = 5"
      "logs (step (throwing_env 4) (Settle 0 (Resolved (- 1))) (example_state\<lparr>logs := logs example_state @ [LogErr]\<rparr>))
         = [LogVerifying 7 0 4, LogErr, LogErr, LogDone 5]"
    by (simp_all add: example_state_def throwing_env_def throws_at_def step_def on_settle_def
        q_next.simps q_done_def emit_done_def Let_def done_message_def drop_nth_def)
  from engine_failure_counts_as_no_match [of 0 example_state "throwing_env 4"] a
  have c: "step (throwing_env 4) (Settle 0 Rejected) example_state
     = step (throwing_env 4) (Settle 0 (Resolved (- 1))) (example_state\<lparr>logs := logs example_state @ [LogErr]\<rparr>)"
    by blast
  show ?thesis unfolding c using a b by simp
qed

subsection \<open>The done message\<close>

text \<open>
  C6, as stated, does not hold, for two reasons. First, a \<open>do\<close> handler that never returns:
  with batches of 1 and the range from \<open>2^53\<close> to \<open>2^53 + 2\<close> the sum \<open>current + 1\<close> rounds
  back to \<open>2^53\<close>, the loop of \<open>verify\<close> has no end, and no message is ever sent. Second, a
  \<open>do\<close> that arrives while a search is running: the new queue replaces the old one in the
  variable \<open>queue\<close>, and nothing calls \<open>done()\<close> on the old one. After a \<open>do\<close> for work item
  7 followed by a \<open>do\<close> for work item 8, when every call has been answered and nothing is
  pending any more, the only message sent is the one for work item 8.
\<close>

theorem done_message_counterexample:
  "on_do single_env example_work (2 ^ 53) (2 ^ 53 + 2) idle_worker = None \<and>
   map_option sent
     (then_search (search example_env idle_worker example_work 0 9 [])
        example_env short_work 0 2 [Settle 0 (Resolved (- 1)), SettleStale 0 (Resolved (- 1))])
     = Some [\<lparr>cmd = ''done'', msg_work = short_work, msg_matched = None, worker = 1\<rparr>] \<and>
   map_option queue
     (then_search (search example_env idle_worker example_work 0 9 [])
        example_env short_work 0 2 [Settle 0 (Resolved (- 1)), SettleStale 0 (Resolved (- 1))])
     = Some None \<and>
   map_option inflight
     (then_search (search example_env idle_worker example_work 0 9 [])
        example_env short_work 0 2 [Settle 0 (Resolved (- 1)), SettleStale 0 (Resolved (- 1))])
     = Some [] \<and>
   map_option stale
     (then_search (search example_env idle_worker example_work 0 9 [])
        example_env short_work 0 2 [Settle 0 (Resolved (- 1)), SettleStale 0 (Resolved (- 1))])
     = Some []"
proof -
  have "js_add (2 ^ 53) 1 = 2 ^ 53" by (simp add: round_simps Let_def)
  then have "fps_loop 1 (items example_work) False (2 ^ 53 + 2) (2 ^ 53) [] = None"
    by (intro fps_loop_stalls) simp_all
  then have "on_do single_env example_work (2 ^ 53) (2 ^ 53 + 2) idle_worker = None"
    by (simp add: on_do_def verify_def single_env_def)
  then show ?thesis by (simp add: eval_simps)
qed

text \<open>
  C6 as amended, for a \<open>do\<close> command that is not followed by another \<open>do\<close>, whatever state
  the worker was in when it arrived. When the range is empty, or \<open>identifyCount\<close> is
  positive and the range lies within the safe integers, the handler returns. Whenever it
  returns, after any sequence of \<open>stop\<close> messages and engine results at most one message
  has been sent since; it is \<open>{cmd: 'done', work, matched, worker}\<close> with the work item
  received, the worker's identity, and \<open>matched\<close> either \<open>null\<close> or an index computed
  from a submitted chunk and a non-negative offset. As long as none has been sent the
  search is running with a call of the engine pending; once no call of the search is
  pending, exactly one has been sent.
\<close>

theorem exactly_one_done_message:
  "((0 < identifyCount E \<and> safe_range (identifyCount E) s e) \<or> e < s \<longrightarrow>
      (\<exists>st. search E W w s e evs = Some st)) \<and>
   (search E W w s e evs = Some st \<longrightarrow>
      (sent st = sent W \<or>
       (\<exists>m. sent st = sent W @ [\<lparr>cmd = ''done'', msg_work = w, msg_matched = m, worker = worker_id E\<rparr>] \<and>
          (m = None \<or> (\<exists>d\<in>set (submitted st). \<exists>i\<ge>0. m = Some (js_add (start d) i))))) \<and>
      (sent st = sent W \<longrightarrow> queue st \<noteq> None \<and> inflight st \<noteq> []) \<and>
      (inflight st = [] \<longrightarrow> length (sent st) = length (sent W) + 1))"
proof (intro conjI impI)
  assume "(0 < identifyCount E \<and> safe_range (identifyCount E) s e) \<or> e < s"
  from on_do_total [OF this, of w W] show "\<exists>st. search E W w s e evs = Some st"
    by (auto simp: search_def)
next
  assume st: "search E W w s e evs = Some st"
  from search_live [OF st] show "sent st = sent W \<or>
       (\<exists>m. sent st = sent W @ [\<lparr>cmd = ''done'', msg_work = w, msg_matched = m, worker = worker_id E\<rparr>] \<and>
          (m = None \<or> (\<exists>d\<in>set (submitted st). \<exists>i\<ge>0. m = Some (js_add (start d) i))))"
    by (auto simp: live_def poised_def over_def done_message_def index_of_def)
next
  assume st: "search E W w s e evs = Some st" and "sent st = sent W"
  with search_live [OF st] show "queue st \<noteq> None"
    by (auto simp: live_def poised_def over_def)
next
  assume st: "search E W w s e evs = Some st" and "sent st = sent W"
  with search_live [OF st] show "inflight st \<noteq> []"
    by (auto simp: live_def poised_def over_def)
next
  assume st: "search E W w s e evs = Some st" and "inflight st = []"
  with search_live [OF st] show "length (sent st) = length (sent W) + 1"
    by (auto simp: live_def over_def)
qed

theorem exactly_one_done_message_witness:
  "((0 < identifyCount example_env \<and> safe_range (identifyCount example_env) 0 9) \<or> (9::int) < 0) \<and>
   search example_env idle_worker example_work 0 9 [Settle 0 Rejected, MsgStop, Settle 0 (Resolved 2)]
     = Some (the (search example_env idle_worker example_work 0 9
                    [Settle 0 Rejected, MsgStop, Settle 0 (Resolved 2)])) \<and>
   inflight (the (search example_env idle_worker example_work 0 9
                    [Settle 0 Rejected, MsgStop, Settle 0 (Resolved 2)])) = [] \<and>
   length (sent (the (search example_env idle_worker example_work 0 9
                    [Settle 0 Rejected, MsgStop, Settle 0 (Resolved 2)]))) = 1"
proof -
  let ?evs = "[Settle 0 Rejected, MsgStop, Settle 0 (Resolved 2)]"
  let ?st = "the (search example_env idle_worker example_work 0 9 ?evs)"
  have a: "(0 < identifyCount example_env \<and> safe_range (identifyCount example_env) 0 9) \<or> (9::int) < 0"
    by (simp add: example_env_def safe_range_def)
  have b: "search example_env idle_worker example_work 0 9 ?evs = Some ?st"
    by (simp add: eval_simps)
  have c: "inflight ?st = []" "sent idle_worker = []" by (simp_all add: eval_simps)
  from exactly_one_done_message [of example_env 0 9 idle_worker example_work ?evs ?st] b c
  have "length (sent ?st) = 1" by simp
  with a b c show ?thesis by simp
qed

text \<open>
  C7: for an empty range (\<open>end < start\<close>), any \<open>identifyCount\<close> and any state of the worker
  the loop builds no chunk, and the \<open>do\<close> handler ends in the state written out here:
  nothing was submitted to the engine, no call of this search is pending, the \<open>done\<close>
  message with \<open>matched = null\<close> has been sent, and the count in the log is 0.
\<close>

theorem empty_range_reports_at_once:
  assumes "e < s"
  shows "fps_loop (identifyCount E) (items w) False e s [] = Some [] \<and>
     on_do E w s e W = Some
       (W\<lparr>stop := False, queue := None, listening := False, work := w, count := 0,
          matched := None, inflight := [], stale := stale W @ inflight W, submitted := [],
          sent := sent W @ [\<lparr>cmd = ''done'', msg_work = w, msg_matched = None, worker = worker_id E\<rparr>],
          logs := logs W @ [LogVerifying (work_id w) s e, LogDone 0]\<rparr>)"
  using assms
  by (cases W) (simp add: on_do_def verify_def fps_loop_empty q_next_Nil q_done_def emit_done_def)

theorem empty_range_reports_at_once_witness:
  "(4::int) < 5 \<and> fps_loop (identifyCount example_env) (items example_work) False 4 5 [] = Some [] \<and>
   map_option sent (on_do example_env example_work 5 4 idle_worker)
     = Some [\<lparr>cmd = ''done'', msg_work = example_work, msg_matched = None, worker = 1\<rparr>] \<and>
   map_option submitted (on_do example_env example_work 5 4 idle_worker) = Some [] \<and>
   map_option logs (on_do example_env example_work 5 4 idle_worker)
     = Some [LogVerifying 7 5 4, LogDone 0]"
proof -
  have a: "(4::int) < 5" by simp
  from empty_range_reports_at_once [OF a, of example_env example_work idle_worker]
  show ?thesis by (simp add: example_env_def idle_worker_def new_worker_def example_work_def)
qed

subsection \<open>The processed count\<close>

text \<open>
  C8, as the specification states it, does not hold: the handler adds the size of the
  chunk to \<open>count\<close> before it calls \<open>identify\<close>. In the example (range 0 to 9, batches of
  4) the count is 4 right after \<open>do\<close>, before the engine has answered anything; a match
  in the first chunk ends the search with count 4, not 0; and after a rejected first call
  the count is 8.
\<close>

theorem count_grows_at_submission_counterexample:
  "map_option count (search example_env idle_worker example_work 0 9 []) = Some 4 \<and>
   map_option count (search example_env idle_worker example_work 0 9 [Settle 0 (Resolved 2)]) = Some 4 \<and>
   map_option logs (search example_env idle_worker example_work 0 9 [Settle 0 (Resolved 2)])
     = Some [LogVerifying 7 0 9, LogFound 2, LogDone 4] \<and>
   map_option count (search example_env idle_worker example_work 0 9 [Settle 0 Rejected]) = Some 8"
  by (simp add: eval_simps)

text \<open>
  C8 as amended: the count grows by the size of a chunk when the chunk is handed to the
  engine, whatever the engine answers later. At every moment of a search it is the total
  size of the chunks submitted so far, the pending ones and those that matched or failed
  included.
\<close>

theorem count_is_size_of_submitted_chunks:
  assumes "search E W w s e evs = Some st"
  shows "count st = sizes (submitted st)"
  using search_live [OF assms] by (auto simp: live_def poised_def over_def)

theorem count_is_size_of_submitted_chunks_witness:
  "search example_env idle_worker example_work 0 9 [Settle 0 Rejected]
     = Some (the (search example_env idle_worker example_work 0 9 [Settle 0 Rejected])) \<and>
   count (the (search example_env idle_worker example_work 0 9 [Settle 0 Rejected]))
     = sizes (submitted (the (search example_env idle_worker example_work 0 9 [Settle 0 Rejected]))) \<and>
   sizes (submitted (the (search example_env idle_worker example_work 0 9 [Settle 0 Rejected]))) = 8"
proof -
  let ?st = "the (search example_env idle_worker example_work 0 9 [Settle 0 Rejected])"
  have a: "search example_env idle_worker example_work 0 9 [Settle 0 Rejected] = Some ?st"
    by (simp add: eval_simps)
  have b: "sizes (submitted ?st) = 8" by (simp add: eval_simps)
  from count_is_size_of_submitted_chunks [OF a] a b show ?thesis by blast
qed

subsection \<open>The matched index\<close>

lemma matched_step:
  "matched (step E ev st) = matched st \<or>
   (\<exists>k i. ev = Settle k (Resolved i) \<and> k < length (inflight st) \<and> 0 \<le> i \<and>
      matched (step E ev st) = Some (js_add (start (inflight st ! k)) i))"
proof (cases ev)
  case MsgStop
  then show ?thesis
    by (simp add: step_def on_stop_def q_done_def q_clear_def emit_done_def Let_def)
next
  case (SettleStale k r)
  then show ?thesis
    by (cases r)
      (simp_all add: step_def on_settle_stale_def errNext_def q_next_matched q_done_def
        emit_done_def Let_def)
next
  case (Settle k r)
  show ?thesis
  proof (cases r)
    case Rejected
    with Settle show ?thesis
      by (simp add: step_def on_settle_def errNext_def q_next_matched Let_def)
  next
    case (Resolved i)
    with Settle show ?thesis
      by (simp add: step_def on_settle_def errNext_def q_next_matched q_done_def
        emit_done_def Let_def)
  qed
qed

lemma matched_in_range_step:
  assumes "\<forall>d\<in>pending_chunks st. good s e d"
    and "\<forall>m. matched st = Some m \<longrightarrow> s \<le> m \<and> m \<le> e" and "contract st ev"
  shows "(\<forall>d\<in>pending_chunks (step E ev st). good s e d) \<and>
         (\<forall>m. matched (step E ev st) = Some m \<longrightarrow> s \<le> m \<and> m \<le> e)"
proof
  from pending_step [of E ev st] assms(1)
  show "\<forall>d\<in>pending_chunks (step E ev st). good s e d" by blast
  from matched_step [of E ev st]
  show "\<forall>m. matched (step E ev st) = Some m \<longrightarrow> s \<le> m \<and> m \<le> e"
  proof
    assume "matched (step E ev st) = matched st"
    with assms(2) show ?thesis by simp
  next
    assume "\<exists>k i. ev = Settle k (Resolved i) \<and> k < length (inflight st) \<and> 0 \<le> i \<and>
      matched (step E ev st) = Some (js_add (start (inflight st ! k)) i)"
    then obtain k i where ev: "ev = Settle k (Resolved i)" and k: "k < length (inflight st)"
      and i: "0 \<le> i" and m: "matched (step E ev st) = Some (js_add (start (inflight st ! k)) i)"
      by blast
    let ?d = "inflight st ! k"
    from k have "?d \<in> pending_chunks st" by (simp add: pending_chunks_def)
    with assms(1) have g: "\<forall>j<length (fmds ?d).
        s \<le> js_add (start ?d) (int j) \<and> js_add (start ?d) (int j) \<le> e"
      by (simp add: good_def)
    from assms(3) ev k have "i < int (length (fmds ?d))" by simp
    with i have "nat i < length (fmds ?d)" by simp
    with g i have "s \<le> js_add (start ?d) i \<and> js_add (start ?d) i \<le> e" by fastforce
    with m show ?thesis by simp
  qed
qed

lemma matched_in_range_run:
  "(\<forall>d\<in>pending_chunks st. good s e d) \<Longrightarrow>
     (\<forall>m. matched st = Some m \<longrightarrow> s \<le> m \<and> m \<le> e) \<Longrightarrow> obeys E st evs \<Longrightarrow>
     (\<forall>m. matched (run E st evs) = Some m \<longrightarrow> s \<le> m \<and> m \<le> e)"
proof (induction evs arbitrary: st)
  case Nil
  then show ?case by simp
next
  case (Cons ev evs)
  from Cons.prems(3) have c: "contract st ev" "obeys E (step E ev st) evs" by simp_all
  from matched_in_range_step [OF Cons.prems(1,2) c(1), of E]
  have "\<forall>d\<in>pending_chunks (step E ev st). good s e d"
    "\<forall>m. matched (step E ev st) = Some m \<longrightarrow> s \<le> m \<and> m \<le> e"
    by simp_all
  from Cons.IH [OF this c(2)] show ?case by simp
qed

text \<open>
  C9: \<open>start\<close> is a JavaScript number, and the engine keeps its contract when
  every answer to a chunk is smaller than the size of that chunk (\<open>obeys\<close>; a negative
  answer means no match). Then, whatever state the worker was in when \<open>do\<close> arrived and
  after any sequence of \<open>stop\<close> messages and engine results, an index recorded in
  \<open>matched\<close> lies in \<open>[start, end]\<close>. This holds at all magnitudes: the index recorded is
  the same rounded sum that passed the test \<open>current + i > end\<close> when the chunk was built.
\<close>

theorem matched_index_in_range:
  assumes "on_do E w s e W = Some st0" and "is_num s"
    and "obeys E st0 evs" and "matched (run E st0 evs) = Some m"
  shows "s \<le> m \<and> m \<le> e"
proof -
  from assms(1) obtain fps where f: "fps_loop (identifyCount E) (items w) False e s [] = Some fps"
    and st0: "st0 = q_next E
           (W\<lparr>stop := False, queue := Some fps, listening := True, work := w, count := 0,
              matched := None, inflight := [], stale := stale W @ inflight W,
              submitted := [], logs := logs W @ [LogVerifying (work_id w) s e]\<rparr>)"
    by (rule on_do_Some)
  let ?init = "W\<lparr>stop := False, queue := Some fps, listening := True, work := w, count := 0,
              matched := None, inflight := [], stale := stale W @ inflight W,
              submitted := [], logs := logs W @ [LogVerifying (work_id w) s e]\<rparr>"
  have "pending_chunks ?init = set fps" by (simp add: pending_chunks_def)
  with q_next_pending [of E ?init] fps_loop_all_good [OF f assms(2)] st0
  have p: "\<forall>d\<in>pending_chunks st0. good s e d" by blast
  have "matched st0 = None" unfolding st0 by (simp add: q_next_matched)
  then have "\<forall>m. matched st0 = Some m \<longrightarrow> s \<le> m \<and> m \<le> e" by simp
  from matched_in_range_run [OF p this assms(3)] assms(4) show ?thesis by simp
qed

theorem matched_index_in_range_witness:
  "on_do example_env example_work 0 9 idle_worker
     = Some (the (on_do example_env example_work 0 9 idle_worker)) \<and>
   is_num 0 \<and>
   obeys example_env (the (on_do example_env example_work 0 9 idle_worker))
     [Settle 0 (Resolved (- 1)), Settle 0 (Resolved (- 1)), Settle 0 (Resolved 1)] \<and>
   matched (run example_env (the (on_do example_env example_work 0 9 idle_worker))
     [Settle 0 (Resolved (- 1)), Settle 0 (Resolved (- 1)), Settle 0 (Resolved 1)]) = Some 9 \<and>
   (0::int) \<le> 9 \<and> (9::int) \<le> 9"
proof -
  let ?st0 = "the (on_do example_env example_work 0 9 idle_worker)"
  let ?evs = "[Settle 0 (Resolved (- 1)), Settle 0 (Resolved (- 1)), Settle 0 (Resolved 1)]"
  have a: "on_do example_env example_work 0 9 idle_worker = Some ?st0" by (simp add: eval_simps)
  have n: "is_num 0" by (simp add: is_num_exact)
  have b: "obeys example_env ?st0 ?evs" by (simp add: eval_simps)
  have c: "matched (run example_env ?st0 ?evs) = Some 9" by (simp add: eval_simps)
  from matched_index_in_range [OF a n b c] a n b c show ?thesis by blast
qed

subsection \<open>Reads outside the items array\<close>

text \<open>
  C10: the chunk construction never looks at the length of \<open>work.items\<close>. For a positive
  \<open>identifyCount\<close>, \<open>start \<le> end\<close> within the safe integers and an \<open>items\<close> array shorter
  than \<open>end + 1\<close>, the chunks put together are the reads \<open>items[start], ..., items[end]\<close>;
  the entry for every index of the range that is outside the array is \<open>undefined\<close>, so
  there is at least one; and in a search where no chunk matches, all these chunks are
  passed to the engine.
\<close>

theorem chunks_ignore_items_length:
  assumes "0 < identifyCount E" and "s \<le> e" and "safe_range (identifyCount E) s e"
    and "int (length (items w)) \<le> e"
  shows "\<exists>fps. fps_loop (identifyCount E) (items w) False e s [] = Some fps \<and>
      concat (map fmds fps) = map (js_index (items w)) [s..e] \<and>
      (\<forall>k\<in>{s..e}. int (length (items w)) \<le> k \<longrightarrow> concat (map fmds fps) ! nat (k - s) = None) \<and>
      None \<in> set (concat (map fmds fps)) \<and>
      (\<forall>evs. list_all negative_event evs \<and> length fps \<le> length evs \<longrightarrow>
         (\<exists>st. search E W w s e evs = Some st \<and> submitted st = fps))"
proof -
  let ?fps = "chunks_from (identifyCount E) (items w) s e"
  have f: "fps_loop (identifyCount E) (items w) False e s [] = Some ?fps"
    using assms(1,3) by (simp add: fps_loop_total)
  have c: "concat (map fmds ?fps) = map (js_index (items w)) [s..e]"
    using assms(1) by (simp add: chunks_from_concat)
  have out: "\<forall>k\<in>{s..e}. int (length (items w)) \<le> k \<longrightarrow> concat (map fmds ?fps) ! nat (k - s) = None"
  proof (intro ballI impI)
    fix k assume k: "k \<in> {s..e}" "int (length (items w)) \<le> k"
    then have "s + int (nat (k - s)) \<le> e" by simp
    from nth_upto [OF this] k have "[s..e] ! nat (k - s) = k" by simp
    moreover have "nat (k - s) < length [s..e]" using k by simp
    ultimately have "map (js_index (items w)) [s..e] ! nat (k - s) = js_index (items w) k"
      by (simp only: nth_map)
    with k(2) show "concat (map fmds ?fps) ! nat (k - s) = None"
      unfolding c by (simp add: js_index_def)
  qed
  have "js_index (items w) e \<in> set (map (js_index (items w)) [s..e])" using assms(2) by simp
  with assms(4) have n: "None \<in> set (concat (map fmds ?fps))"
    unfolding c by (simp add: js_index_def)
  from on_do_total [of E s e w W] assms(1,3) obtain st0 where od: "on_do E w s e W = Some st0" by auto
  from on_do_solo [OF od] f have solo: "(\<exists>k. running W w ?fps k st0) \<or> finished E W w ?fps st0"
    by auto
  have sub: "\<forall>evs. list_all negative_event evs \<and> length ?fps \<le> length evs \<longrightarrow>
         (\<exists>st. search E W w s e evs = Some st \<and> submitted st = ?fps)"
  proof (intro allI impI)
    fix evs assume a: "list_all negative_event evs \<and> length ?fps \<le> length evs"
    from negative_run_finished [OF solo, of evs] a
    have "finished E W w ?fps (run E st0 evs)" by simp
    then show "\<exists>st. search E W w s e evs = Some st \<and> submitted st = ?fps"
      by (simp add: search_run [OF od] finished_def)
  qed
  from f c out n sub show ?thesis by blast
qed

theorem chunks_ignore_items_length_witness:
  "0 < identifyCount example_env \<and> (0::int) \<le> 4 \<and> safe_range (identifyCount example_env) 0 4 \<and>
   int (length (items short_work)) \<le> 4 \<and>
   fps_loop (identifyCount example_env) (items short_work) False 4 0 []
     = Some [\<lparr>start = 0, fmds = [Some 100, Some 101, Some 102, None]\<rparr>,
             \<lparr>start = 4, fmds = [None]\<rparr>] \<and>
   (\<exists>st. search example_env idle_worker short_work 0 4 [Settle 0 (Resolved (- 1)), Settle 0 Rejected] = Some st \<and>
      submitted st = [\<lparr>start = 0, fmds = [Some 100, Some 101, Some 102, None]\<rparr>,
                      \<lparr>start = 4, fmds = [None]\<rparr>])"
proof -
  have a: "0 < identifyCount example_env" by (simp add: example_env_def)
  have b: "(0::int) \<le> 4" by simp
  have b': "safe_range (identifyCount example_env) 0 4" by (simp add: example_env_def safe_range_def)
  have c: "int (length (items short_work)) \<le> 4" by (simp add: short_work_def)
  have d: "fps_loop (identifyCount example_env) (items short_work) False 4 0 []
     = Some [\<lparr>start = 0, fmds = [Some 100, Some 101, Some 102, None]\<rparr>,
             \<lparr>start = 4, fmds = [None]\<rparr>]"
    by (simp add: example_env_def short_work_def fps_loop.simps fmds_loop.simps js_index_def js_add_small)
  from chunks_ignore_items_length [OF a b b' c, of idle_worker] d
  have "\<forall>evs. list_all negative_event evs \<and> 2 \<le> length evs \<longrightarrow>
         (\<exists>st. search example_env idle_worker short_work 0 4 evs = Some st \<and>
            submitted st = [\<lparr>start = 0, fmds = [Some 100, Some 101, Some 102, None]\<rparr>,
                            \<lparr>start = 4, fmds = [None]\<rparr>])"
    by auto
  then have "\<exists>st. search example_env idle_worker short_work 0 4 [Settle 0 (Resolved (- 1)), Settle 0 Rejected] = Some st \<and>
      submitted st = [\<lparr>start = 0, fmds = [Some 100, Some 101, Some 102, None]\<rparr>,
                      \<lparr>start = 4, fmds = [None]\<rparr>]"
    by simp
  with a b b' c d show ?thesis by blast
qed

end
